theory Spec2Isabelle
  imports Complex_Main
begin

section \<open>Errors, generators and Python slices\<close>

text \<open>
  The two exceptions the code raises: a failed \<open>assert\<close> and
  \<open>raise NotImplementedError()\<close>.
\<close>

datatype error = AssertionError | NotImplementedError

text \<open>
  A generator that is run to its end: the items it yielded, in order, and the
  exception that ended it, if one did.
\<close>

datatype 'a gen = Gen "'a list" "error option"

text \<open>
  Python's \<open>s[a:]\<close> and \<open>s[:b]\<close>: a negative bound counts from the end, and every
  bound is clamped to the string. Note that \<open>s[:-0]\<close> is \<open>s[:0]\<close>, the empty string.
\<close>

definition slice_from :: "'a list \<Rightarrow> int \<Rightarrow> 'a list" where
  "slice_from s a =
     (if a < 0 then drop (nat (int (length s) + a)) s else drop (nat a) s)"

definition slice_to :: "'a list \<Rightarrow> int \<Rightarrow> 'a list" where
  "slice_to s b =
     (if b < 0 then take (nat (int (length s) + b)) s else take (nat b) s)"

section \<open>young/diagram.py: the class YoungDiagram\<close>

record YoungDiagram =
  yd_height :: int
  yd_width :: int
  yd_n :: int
  yd_usual_description :: "int list"
  yd_binary_description :: string

subsection \<open>\<open>__init__\<close>\<close>

text \<open>
  The loop over \<open>usual_description\<close>: each row length is asserted non-negative and
  at most the previous one (the width, for the first row), and collected in \<open>stock\<close>.
\<close>

fun check_rows :: "int \<Rightarrow> int list \<Rightarrow> int list \<Rightarrow> error + int list" where
  "check_rows previous_row_length stock [] = Inr stock"
| "check_rows previous_row_length stock (row_length # rest) =
     (if \<not> 0 \<le> row_length then Inl AssertionError
      else if \<not> row_length \<le> previous_row_length then Inl AssertionError
      else check_rows row_length (stock @ [row_length]) rest)"

text \<open>
  The loop \<open>for step in range(self._n)\<close> that writes the binary description. The
  first argument counts the steps that remain. The read \<open>usual_description[y - 1]\<close>
  happens only with \<open>1 \<le> y \<le> height\<close>, so it is in range.
\<close>

fun binary_walk :: "nat \<Rightarrow> int list \<Rightarrow> int \<Rightarrow> int \<Rightarrow> string \<Rightarrow> string" where
  "binary_walk 0 ud x y bd = bd"
| "binary_walk (Suc k) ud x y bd =
     (if y = 0 then binary_walk k ud x y (bd @ ''R'')
      else if x < ud ! nat (y - 1) then binary_walk k ud (x + 1) y (bd @ ''R'')
      else binary_walk k ud x (y - 1) (bd @ ''U''))"

definition YoungDiagram_init :: "int \<Rightarrow> int \<Rightarrow> int list \<Rightarrow> error + YoungDiagram" where
  "YoungDiagram_init height width usual_description =
     (if \<not> 0 \<le> height then Inl AssertionError
      else if \<not> 0 \<le> width then Inl AssertionError
      else if \<not> int (length usual_description) \<le> height then Inl AssertionError
      else case check_rows width [] usual_description of
        Inl e \<Rightarrow> Inl e
      | Inr stock \<Rightarrow>
          let ud = stock @ replicate (nat (height - int (length stock))) 0
          in Inr \<lparr>yd_height = height, yd_width = width, yd_n = height + width,
                  yd_usual_description = ud,
                  yd_binary_description = binary_walk (nat (height + width)) ud 0 height []\<rparr>)"

subsection \<open>\<open>__repr__\<close>, \<open>__eq__\<close>, \<open>__lt__\<close>\<close>

definition repr :: "YoungDiagram \<Rightarrow> int \<times> int \<times> int list" where
  "repr d = (yd_height d, yd_width d, yd_usual_description d)"

definition yd_eq :: "YoungDiagram \<Rightarrow> YoungDiagram \<Rightarrow> bool" where
  "yd_eq d other = (repr d = repr other)"

text \<open>Python's \<open>YD in cyclic_orbit\<close> on a list compares with \<open>__eq__\<close>.\<close>

definition yd_in :: "YoungDiagram \<Rightarrow> YoungDiagram list \<Rightarrow> bool" where
  "yd_in d ds = list_ex (\<lambda>e. yd_eq e d) ds"

fun lt_loop :: "int list \<Rightarrow> int list \<Rightarrow> nat list \<Rightarrow> bool" where
  "lt_loop u1 u2 [] = False"
| "lt_loop u1 u2 (row_counter # rest) =
     (if u1 ! row_counter < u2 ! row_counter then True
      else if u1 ! row_counter = u2 ! row_counter then lt_loop u1 u2 rest
      else False)"

definition yd_lt :: "YoungDiagram \<Rightarrow> YoungDiagram \<Rightarrow> error + bool" where
  "yd_lt d other =
     (if yd_height d \<noteq> yd_height other then Inl AssertionError
      else if yd_width d \<noteq> yd_width other then Inl AssertionError
      else Inr (lt_loop (yd_usual_description d) (yd_usual_description other)
                  [0..<nat (yd_height d)]))"

subsection \<open>\<open>Construct_From_Binary_Description\<close>\<close>

fun column_heights_loop :: "string \<Rightarrow> int \<Rightarrow> int list \<Rightarrow> int list" where
  "column_heights_loop [] column_height column_heights = column_heights"
| "column_heights_loop (v # rest) column_height column_heights =
     (if v = CHR ''U'' then column_heights_loop rest (column_height - 1) column_heights
      else if v = CHR ''R''
        then column_heights_loop rest column_height (column_heights @ [column_height])
      else column_heights_loop rest column_height column_heights)"

definition row_width :: "int list \<Rightarrow> int \<Rightarrow> int" where
  "row_width column_heights row_counter =
     sum_list [1. column_height \<leftarrow> column_heights, row_counter \<le> column_height - 1]"

definition Construct_From_Binary_Description :: "string \<Rightarrow> error + YoungDiagram" where
  "Construct_From_Binary_Description string =
     (let n = int (length string);
          height = int (count_list string (CHR ''U''));
          width = int (count_list string (CHR ''R''))
      in if n \<noteq> height + width then Inl AssertionError
         else
           let column_heights = column_heights_loop string height [];
               row_widths = map (row_width column_heights) (map int [0..<nat height])
           in YoungDiagram_init height width row_widths)"

subsection \<open>\<open>complement\<close>, \<open>cyclic_action\<close>, \<open>__rshift__\<close>, \<open>cyclic_orbit\<close>\<close>

definition complement :: "YoungDiagram \<Rightarrow> error + YoungDiagram" where
  "complement d =
     (let old = yd_binary_description d; new = rev old
      in Construct_From_Binary_Description new)"

definition cyclic_action :: "YoungDiagram \<Rightarrow> int \<Rightarrow> error + YoungDiagram" where
  "cyclic_action d steps =
     (if 0 < yd_n d then
        let steps = steps mod yd_n d;
            old = yd_binary_description d;
            new = slice_from old (yd_n d - steps) @ slice_to old (- steps)
        in Construct_From_Binary_Description new
      else Inl NotImplementedError)"

definition rshift :: "YoungDiagram \<Rightarrow> int \<Rightarrow> error + YoungDiagram" where
  "rshift d step = cyclic_action d step"

text \<open>
  The generator \<open>cyclic_orbit\<close>. Its loop is \<open>while True\<close>, so the model is a
  partial function: \<open>None\<close> is the run that never ends. The third argument is the
  list of the diagrams yielded so far.
\<close>

partial_function (option) cyclic_orbit_loop ::
  "YoungDiagram \<Rightarrow> YoungDiagram \<Rightarrow> YoungDiagram list \<Rightarrow> YoungDiagram gen option" where
  "cyclic_orbit_loop first_object current_object yielded =
     (case rshift current_object 1 of
        Inl e \<Rightarrow> Some (Gen (yielded @ [current_object]) (Some e))
      | Inr next_object \<Rightarrow>
          if yd_eq next_object first_object
          then Some (Gen (yielded @ [current_object]) None)
          else cyclic_orbit_loop first_object next_object (yielded @ [current_object]))"

declare cyclic_orbit_loop.simps [code]

definition cyclic_orbit :: "YoungDiagram \<Rightarrow> YoungDiagram gen option" where
  "cyclic_orbit d = cyclic_orbit_loop d d []"

subsection \<open>\<open>is_upper_triangular\<close>, \<open>is_lower_triangular\<close>\<close>

text \<open>
  The quotient \<open>width * (height - row_counter) / height\<close> is the exact quotient of
  integers, a rational number; \<open>not False in stock\<close> is \<open>not (False in stock)\<close>.
\<close>

definition is_upper_triangular :: "YoungDiagram \<Rightarrow> error + bool" where
  "is_upper_triangular d =
     (if 0 < yd_height d then
        let stock = map (\<lambda>(row_counter, row_length).
                       (of_int row_length :: rat)
                         \<le> of_int (yd_width d * (yd_height d - int row_counter))
                             / of_int (yd_height d))
                     (enumerate 0 (yd_usual_description d))
        in Inr (False \<notin> set stock)
      else Inl NotImplementedError)"

definition is_lower_triangular :: "YoungDiagram \<Rightarrow> error + bool" where
  "is_lower_triangular d =
     (case complement d of Inl e \<Rightarrow> Inl e | Inr c \<Rightarrow> is_upper_triangular c)"

subsection \<open>\<open>orbit_length\<close>, \<open>slope\<close>, \<open>steps_to_next_lower_triangular\<close>, \<open>volume\<close>\<close>

partial_function (option) orbit_length_loop ::
  "int \<Rightarrow> string \<Rightarrow> string \<Rightarrow> int \<Rightarrow> int option" where
  "orbit_length_loop n initial_string previous_string counter =
     (let counter = counter + 1;
          next_string = slice_from previous_string (n - 1) @ slice_to previous_string (- 1)
      in if next_string = initial_string then Some counter
         else orbit_length_loop n initial_string next_string counter)"

declare orbit_length_loop.simps [code]

definition orbit_length :: "YoungDiagram \<Rightarrow> int option" where
  "orbit_length d =
     orbit_length_loop (yd_n d) (yd_binary_description d) (yd_binary_description d) 0"

definition slope :: "YoungDiagram \<Rightarrow> error + rat" where
  "slope d =
     (if 0 < yd_width d then Inr (of_int (yd_height d) / of_int (yd_width d))
      else Inl NotImplementedError)"

text \<open>
  The loop \<open>while steps < self._n\<close>; the result \<open>Inr None\<close> is Python's \<open>None\<close>,
  returned when the loop ends without a \<open>return\<close>.
\<close>

function steps_loop :: "int \<Rightarrow> int \<Rightarrow> YoungDiagram \<Rightarrow> error + int option" where
  "steps_loop n steps current =
     (if steps < n then
        (case is_lower_triangular current of
           Inl e \<Rightarrow> Inl e
         | Inr b \<Rightarrow>
             if b then Inr (Some steps)
             else (case rshift current 1 of
                     Inl e \<Rightarrow> Inl e
                   | Inr next_object \<Rightarrow> steps_loop n (steps + 1) next_object))
      else Inr None)"
  by pat_completeness auto
termination
  by (relation "measure (\<lambda>(n, steps, current). nat (n - steps))") auto

definition steps_to_next_lower_triangular :: "YoungDiagram \<Rightarrow> error + int option" where
  "steps_to_next_lower_triangular d = steps_loop (yd_n d) 0 d"

definition volume :: "YoungDiagram \<Rightarrow> int" where
  "volume d = sum_list (yd_usual_description d)"

section \<open>young/diagrams.py: the class YoungDiagrams\<close>

record YoungDiagrams =
  ys_height :: int
  ys_width :: int
  ys_n :: int

definition YoungDiagrams_init :: "int \<Rightarrow> int \<Rightarrow> error + YoungDiagrams" where
  "YoungDiagrams_init height width =
     (if \<not> 0 \<le> height then Inl AssertionError
      else if \<not> 0 \<le> width then Inl AssertionError
      else Inr \<lparr>ys_height = height, ys_width = width, ys_n = height + width\<rparr>)"

text \<open>
  Modelled from the spec: \<open>IntegerListsLex\<close> is a class of the Sage library, which is
  not part of this repository. With \<open>max_part\<close>, \<open>length\<close>, \<open>ceiling\<close> and
  \<open>max_slope=0\<close> it lists all sequences of non-negative integers of the given length
  that are weakly decreasing, with every entry at most \<open>max_part\<close> and the entry of
  row \<open>r\<close> at most \<open>ceiling[r]\<close>; Sage lists them from the lexicographically largest
  to the smallest. The length is the length of \<open>ceiling\<close>, as in the one call of the
  source.
\<close>

fun IntegerListsLex :: "int \<Rightarrow> int list \<Rightarrow> int list list" where
  "IntegerListsLex max_part [] = [[]]"
| "IntegerListsLex max_part (c # cs) =
     concat (map (\<lambda>v. map ((#) v) (IntegerListsLex v cs)) (rev [0..min max_part c]))"

text \<open>
  The generator expression \<open>(YoungDiagram(...) for usual_description in ...)\<close>: the
  diagrams are constructed one by one, and the first failed assertion ends the
  generator.
\<close>

fun construct_each :: "int \<Rightarrow> int \<Rightarrow> int list list \<Rightarrow> YoungDiagram gen" where
  "construct_each height width [] = Gen [] None"
| "construct_each height width (usual_description # rest) =
     (case YoungDiagram_init height width usual_description of
        Inl e \<Rightarrow> Gen [] (Some e)
      | Inr d \<Rightarrow> (case construct_each height width rest of Gen ds raised \<Rightarrow> Gen (d # ds) raised))"

text \<open>
  The source calls \<open>YoungDiagram(self._width, self._height, usual_description)\<close>,
  whereas the constructor's parameters are \<open>(height, width, usual_description)\<close>: the
  family's width is passed as the diagram's height and the family's height as its width.
\<close>

definition get_upper_triangulars :: "YoungDiagrams \<Rightarrow> error + YoungDiagram gen" where
  "get_upper_triangulars f =
     (if 0 < ys_height f then
        let ceiling = map (\<lambda>row_counter.
                         \<lfloor>(of_int (ys_width f * (ys_height f - row_counter - 1)) :: rat)
                            / of_int (ys_height f)\<rfloor>)
                       (map int [0..<nat (ys_height f)]);
            usual_descriptions = rev (IntegerListsLex (ys_width f) ceiling)
        in Inr (construct_each (ys_width f) (ys_height f) usual_descriptions)
      else Inl NotImplementedError)"

text \<open>
  The inner loop \<open>for fellow in YD.cyclic_orbit()\<close> of \<open>get_minimal_upper_triangulars\<close>,
  over the diagrams the orbit yields.
\<close>

fun fellows_loop ::
  "YoungDiagram list \<Rightarrow> YoungDiagram \<Rightarrow> YoungDiagram list
     \<Rightarrow> error + YoungDiagram \<times> YoungDiagram list" where
  "fellows_loop [] minimal_object orbit = Inr (minimal_object, orbit)"
| "fellows_loop (fellow # rest) minimal_object orbit =
     (case is_upper_triangular fellow of
        Inl e \<Rightarrow> Inl e
      | Inr b \<Rightarrow>
          if b then
            (case yd_lt fellow minimal_object of
               Inl e \<Rightarrow> Inl e
             | Inr l \<Rightarrow> fellows_loop rest (if l then fellow else minimal_object)
                          (orbit @ [fellow]))
          else fellows_loop rest minimal_object orbit)"

text \<open>
  The outer loop \<open>for YD in self.get_upper_triangulars()\<close>. The first argument is
  the exception that ends the enumeration after its last diagram, if any; the last one
  is the list of the diagrams yielded so far. An orbit that raises does so after its
  diagrams have been looked at.
\<close>

fun minimal_loop ::
  "error option \<Rightarrow> YoungDiagram list \<Rightarrow> YoungDiagram list list \<Rightarrow> YoungDiagram list
     \<Rightarrow> YoungDiagram gen option" where
  "minimal_loop raised [] cyclic_orbits yielded = Some (Gen yielded raised)"
| "minimal_loop raised (YD # rest) cyclic_orbits yielded =
     (if list_ex (yd_in YD) cyclic_orbits then minimal_loop raised rest cyclic_orbits yielded
      else
        (case cyclic_orbit YD of
           None \<Rightarrow> None
         | Some (Gen fellows orbit_raised) \<Rightarrow>
             (case fellows_loop fellows YD [] of
                Inl e \<Rightarrow> Some (Gen yielded (Some e))
              | Inr (minimal_object, orbit) \<Rightarrow>
                  (case orbit_raised of
                     Some e \<Rightarrow> Some (Gen yielded (Some e))
                   | None \<Rightarrow> minimal_loop raised rest (cyclic_orbits @ [orbit])
                              (yielded @ [minimal_object])))))"

definition get_minimal_upper_triangulars :: "YoungDiagrams \<Rightarrow> YoungDiagram gen option" where
  "get_minimal_upper_triangulars f =
     (case get_upper_triangulars f of
        Inl e \<Rightarrow> Some (Gen [] (Some e))
      | Inr (Gen YDs raised) \<Rightarrow> minimal_loop raised YDs [] [])"

section \<open>Auxiliary notions for the proofs\<close>

text \<open>
  The width that \<open>Construct_From_Binary_Description\<close> computes for row \<open>r\<close> when the
  string \<open>s\<close> is read with \<open>c\<close> as the column height it starts from.
\<close>

definition cnt :: "string \<Rightarrow> int \<Rightarrow> int \<Rightarrow> int" where
  "cnt s c r = row_width (column_heights_loop s c []) r"

text \<open>What the assertions in the row loop of \<open>__init__\<close> ask of the rows.\<close>

fun rows_ok :: "int \<Rightarrow> int list \<Rightarrow> bool" where
  "rows_ok previous [] = True"
| "rows_ok previous (r # rs) = (0 \<le> r \<and> r \<le> previous \<and> rows_ok r rs)"

text \<open>The well-formed diagrams: what \<open>__init__\<close> establishes.\<close>

definition wf_diagram :: "YoungDiagram \<Rightarrow> bool" where
  "wf_diagram d \<longleftrightarrow>
     0 \<le> yd_height d \<and> 0 \<le> yd_width d \<and> yd_n d = yd_height d + yd_width d
     \<and> length (yd_usual_description d) = nat (yd_height d)
     \<and> rows_ok (yd_width d) (yd_usual_description d)
     \<and> yd_binary_description d =
         binary_walk (nat (yd_n d)) (yd_usual_description d) 0 (yd_height d) []"

text \<open>
  The number of pairs of positions of a string with an \<open>R\<close> at the first and a \<open>U\<close> at
  the second, later one: the number of boxes under the path that the string describes.
\<close>

fun pairs :: "string \<Rightarrow> int" where
  "pairs [] = 0"
| "pairs (c # t) = (if c = CHR ''R'' then int (count_list t (CHR ''U'')) else 0) + pairs t"

text \<open>
  Rotating a code by \<open>k\<close> positions, in the direction of the source: the last \<open>k\<close>
  symbols (modulo the length) move to the front. It is the left rotation \<open>rotate\<close> of
  the list library by the remaining number of positions.
\<close>

definition rotate_right :: "nat \<Rightarrow> 'a list \<Rightarrow> 'a list" where
  "rotate_right k s = rotate (length s - k mod length s) s"

text \<open>
  The expression \<open>s[n - 1:] + s[:-1]\<close> of the source, for a string \<open>s\<close> of length \<open>n\<close>.
\<close>

definition shift1 :: "'a list \<Rightarrow> 'a list" where
  "shift1 s = slice_from s (int (length s) - 1) @ slice_to s (- 1)"

text \<open>
  The diagram \<open>d\<close> rotated by \<open>k\<close> steps: the diagram of the code of \<open>d\<close> rotated by
  \<open>k\<close> positions; and whether it is lower triangular.
\<close>

definition rotated :: "YoungDiagram \<Rightarrow> nat \<Rightarrow> error + YoungDiagram" where
  "rotated d k = Construct_From_Binary_Description (rotate_right k (yd_binary_description d))"

definition lower_after :: "YoungDiagram \<Rightarrow> nat \<Rightarrow> bool" where
  "lower_after d k =
     (case rotated d k of Inl e \<Rightarrow> False | Inr c \<Rightarrow> is_lower_triangular c = Inr True)"

section \<open>The binary walk and its decoding\<close>


lemma binary_walk_acc: "binary_walk k ud x y bd = bd @ binary_walk k ud x y []"
proof (induction k arbitrary: x y bd)
  case 0
  show ?case by simp
next
  case (Suc k)
  have a: "\<And>x y c. binary_walk k ud x y (bd @ c) = bd @ binary_walk k ud x y c"
    using Suc.IH[of _ _ "bd @ _"] Suc.IH[of _ _ "_ :: string"] by (metis append.assoc)
  show ?case using a by simp
qed

lemma binary_walk_Suc:
  "binary_walk (Suc k) ud x y [] =
     (if y = 0 then CHR ''R'' # binary_walk k ud x y []
      else if x < ud ! nat (y - 1) then CHR ''R'' # binary_walk k ud (x + 1) y []
      else CHR ''U'' # binary_walk k ud x (y - 1) [])"
  using binary_walk_acc[of k ud _ _ "[_]"] by simp

lemma binary_walk_zero: "binary_walk k ud x 0 [] = replicate k (CHR ''R'')"
  by (induction k) (simp_all add: binary_walk_Suc del: binary_walk.simps(2))

lemma column_heights_loop_acc:
  "column_heights_loop s c acc = acc @ column_heights_loop s c []"
proof (induction s arbitrary: c acc)
  case Nil
  show ?case by simp
next
  case (Cons v s)
  show ?case using Cons.IH[of _ "acc @ [c]"] Cons.IH[of _ "[c]"] Cons.IH[of _ acc]
    by simp
qed

lemma row_width_filter: "row_width chs r = int (length (filter (\<lambda>ch. r \<le> ch - 1) chs))"
  unfolding row_width_def by (induction chs) simp_all

lemma cnt_Nil [simp]: "cnt [] c r = 0"
  by (simp add: cnt_def row_width_filter)

lemma cnt_U [simp]: "cnt (CHR ''U'' # s) c r = cnt s (c - 1) r"
  by (simp add: cnt_def)

lemma cnt_R [simp]: "cnt (CHR ''R'' # s) c r = (if r \<le> c - 1 then 1 else 0) + cnt s c r"
  using column_heights_loop_acc[of s c "[c]"] by (simp add: cnt_def row_width_filter)

lemma cnt_replicate_U [simp]: "cnt (replicate k (CHR ''U'') @ s) c r = cnt s (c - int k) r"
  by (induction k arbitrary: c) (simp_all add: algebra_simps)

lemma cnt_other [simp]:
  "v \<noteq> CHR ''U'' \<Longrightarrow> v \<noteq> CHR ''R'' \<Longrightarrow> cnt (v # s) c r = cnt s c r"
  by (simp add: cnt_def)

lemma cnt_zero: "c \<le> r \<Longrightarrow> cnt s c r = 0"
proof (induction s arbitrary: c)
  case Nil
  show ?case by simp
next
  case (Cons v s)
  show ?case
    using Cons.prems Cons.IH[of c] Cons.IH[of "c - 1"]
    by (cases "v = CHR ''U''"; cases "v = CHR ''R''") simp_all
qed

lemma cnt_replicate_R: "0 \<le> r \<Longrightarrow> cnt (replicate k (CHR ''R'')) 0 r = 0"
  by (induction k) simp_all

lemma count_list_replicate_eq: "count_list (replicate k a) b = (if a = b then k else 0)"
  by (induction k) auto

lemma binary_walk_decode:
  assumes dec: "\<And>i j. i \<le> j \<Longrightarrow> j < length ud \<Longrightarrow> ud ! j \<le> ud ! i"
    and le_w: "\<And>i. i < length ud \<Longrightarrow> ud ! i \<le> w"
  shows "0 \<le> y \<Longrightarrow> y \<le> int (length ud) \<Longrightarrow> x \<le> w
     \<Longrightarrow> (0 < y \<Longrightarrow> x \<le> ud ! nat (y - 1))
     \<Longrightarrow> k = nat (w - x + y)
     \<Longrightarrow> count_list (binary_walk k ud x y []) (CHR ''U'') = nat y
       \<and> count_list (binary_walk k ud x y []) (CHR ''R'') = nat (w - x)
       \<and> (\<forall>r. 0 \<le> r \<and> r < y \<longrightarrow> cnt (binary_walk k ud x y []) y r = ud ! nat r - x)"
proof (induction k arbitrary: x y)
  case 0
  then show ?case by simp
next
  case (Suc k)
  show ?case
  proof (cases "y = 0")
    case True
    then show ?thesis using Suc.prems by (simp add: binary_walk_zero count_list_replicate_eq del: replicate.simps binary_walk.simps)
  next
    case False
    then have ypos: "0 < y" using Suc.prems by simp
    have inrange: "nat (y - 1) < length ud" using ypos Suc.prems by linarith
    show ?thesis
    proof (cases "x < ud ! nat (y - 1)")
      case True
      have xw: "x + 1 \<le> w" using True le_w[OF inrange] by simp
      have IH: "count_list (binary_walk k ud (x + 1) y []) (CHR ''U'') = nat y
       \<and> count_list (binary_walk k ud (x + 1) y []) (CHR ''R'') = nat (w - (x + 1))
       \<and> (\<forall>r. 0 \<le> r \<and> r < y \<longrightarrow> cnt (binary_walk k ud (x + 1) y []) y r = ud ! nat r - (x + 1))"
        using Suc.prems True xw by (intro Suc.IH) simp_all
      have bw: "binary_walk (Suc k) ud x y [] = CHR ''R'' # binary_walk k ud (x + 1) y []"
        using True False by (simp add: binary_walk_Suc del: binary_walk.simps)
      show ?thesis unfolding bw using IH xw by simp
    next
      case False
      then have xeq: "x = ud ! nat (y - 1)" using Suc.prems ypos by simp
      have bw: "binary_walk (Suc k) ud x y [] = CHR ''U'' # binary_walk k ud x (y - 1) []"
        using False \<open>y \<noteq> 0\<close> by (simp add: binary_walk_Suc del: binary_walk.simps)
      have next_le: "0 < y - 1 \<Longrightarrow> x \<le> ud ! nat (y - 1 - 1)"
        using dec[of "nat (y - 1 - 1)" "nat (y - 1)"] inrange xeq by simp
      have IH: "count_list (binary_walk k ud x (y - 1) []) (CHR ''U'') = nat (y - 1)
       \<and> count_list (binary_walk k ud x (y - 1) []) (CHR ''R'') = nat (w - x)
       \<and> (\<forall>r. 0 \<le> r \<and> r < y - 1 \<longrightarrow> cnt (binary_walk k ud x (y - 1) []) (y - 1) r = ud ! nat r - x)"
        using Suc.prems ypos next_le by (intro Suc.IH) simp_all
      have last: "cnt (binary_walk k ud x (y - 1) []) (y - 1) (y - 1) = ud ! nat (y - 1) - x"
        using xeq by (simp add: cnt_zero)
      have "\<forall>r. 0 \<le> r \<and> r < y \<longrightarrow> cnt (binary_walk k ud x (y - 1) []) (y - 1) r = ud ! nat r - x"
      proof (intro allI impI)
        fix r assume r: "0 \<le> r \<and> r < y"
        show "cnt (binary_walk k ud x (y - 1) []) (y - 1) r = ud ! nat r - x"
        proof (cases "r = y - 1")
          case True
          then show ?thesis using last by simp
        next
          case False
          then show ?thesis using IH r by simp
        qed
      qed
      then show ?thesis unfolding bw using IH ypos by (simp add: Suc_nat_eq_nat_zadd1 nat_diff_distrib)
    qed
  qed
qed

lemma length_binary_walk: "length (binary_walk k ud x y []) = k"
  by (induction k arbitrary: x y) (simp_all add: binary_walk_Suc del: binary_walk.simps(2))

lemma set_binary_walk: "set (binary_walk k ud x y []) \<subseteq> {CHR ''U'', CHR ''R''}"
  by (induction k arbitrary: x y) (simp_all add: binary_walk_Suc del: binary_walk.simps(2))

lemma check_rows_eq:
  "check_rows previous stock rows =
     (if rows_ok previous rows then Inr (stock @ rows) else Inl AssertionError)"
  by (induction rows arbitrary: previous stock) simp_all

lemma rows_ok_iff:
  "rows_ok previous rows \<longleftrightarrow>
     sorted_wrt (\<lambda>a b. b \<le> a) rows \<and> (\<forall>e \<in> set rows. 0 \<le> e \<and> e \<le> previous)"
proof (induction rows arbitrary: previous)
  case Nil
  show ?case by simp
next
  case (Cons r rows)
  show ?case unfolding rows_ok.simps Cons.IH by fastforce
qed

lemma sorted_wrt_replicate_zero: "sorted_wrt (\<lambda>a b. b \<le> a) (replicate m (0::int))"
  by (induction m) simp_all

lemma rows_ok_pad: "rows_ok previous rows \<Longrightarrow> 0 \<le> previous \<Longrightarrow> rows_ok previous (rows @ replicate m 0)"
  unfolding rows_ok_iff by (auto simp: sorted_wrt_append sorted_wrt_replicate_zero)

lemma rows_ok_nth:
  assumes "rows_ok w ud"
  shows "i \<le> j \<Longrightarrow> j < length ud \<Longrightarrow> ud ! j \<le> ud ! i"
    and "i < length ud \<Longrightarrow> ud ! i \<le> w"
    and "i < length ud \<Longrightarrow> 0 \<le> ud ! i"
proof -
  have s: "sorted_wrt (\<lambda>a b. b \<le> a) ud" and b: "\<forall>e \<in> set ud. 0 \<le> e \<and> e \<le> w"
    using assms unfolding rows_ok_iff by simp_all
  show "i \<le> j \<Longrightarrow> j < length ud \<Longrightarrow> ud ! j \<le> ud ! i"
    using sorted_wrt_nth_less[OF s, of i j] by (cases "i = j") simp_all
  show "i < length ud \<Longrightarrow> ud ! i \<le> w" using b by simp
  show "i < length ud \<Longrightarrow> 0 \<le> ud ! i" using b by simp
qed

lemma init_wf:
  assumes "YoungDiagram_init h w rl = Inr d"
  shows "wf_diagram d" and "yd_height d = h" and "yd_width d = w"
    and "yd_usual_description d = rl @ replicate (nat (h - int (length rl))) 0"
proof -
  from assms have h: "0 \<le> h" and w: "0 \<le> w" and len: "int (length rl) \<le> h"
    and ok: "rows_ok w rl"
    by (auto simp: YoungDiagram_init_def check_rows_eq split: if_splits)
  from assms h w len ok have d: "d = \<lparr>yd_height = h, yd_width = w, yd_n = h + w,
       yd_usual_description = rl @ replicate (nat (h - int (length rl))) 0,
       yd_binary_description = binary_walk (nat (h + w)) (rl @ replicate (nat (h - int (length rl))) 0) 0 h []\<rparr>"
    by (simp add: YoungDiagram_init_def check_rows_eq Let_def)
  show "yd_height d = h" "yd_width d = w"
    "yd_usual_description d = rl @ replicate (nat (h - int (length rl))) 0"
    by (simp_all add: d)
  show "wf_diagram d"
    unfolding wf_diagram_def using h w len rows_ok_pad[OF ok w] by (simp add: d)
qed

lemma wf_init:
  assumes "wf_diagram d"
  shows "YoungDiagram_init (yd_height d) (yd_width d) (yd_usual_description d) = Inr d"
  using assms unfolding wf_diagram_def
  by (cases d) (simp add: YoungDiagram_init_def check_rows_eq Let_def)

lemma init_valid:
  assumes "0 \<le> h" "0 \<le> w" "int (length rl) \<le> h" "rows_ok w rl"
  shows "\<exists>d. YoungDiagram_init h w rl = Inr d"
  using assms by (simp add: YoungDiagram_init_def check_rows_eq Let_def)

lemma wf_binary:
  assumes "wf_diagram d"
  shows "count_list (yd_binary_description d) (CHR ''U'') = nat (yd_height d)"
    and "count_list (yd_binary_description d) (CHR ''R'') = nat (yd_width d)"
    and "length (yd_binary_description d) = nat (yd_n d)"
    and "set (yd_binary_description d) \<subseteq> {CHR ''U'', CHR ''R''}"
    and "\<And>r. 0 \<le> r \<Longrightarrow> r < yd_height d
            \<Longrightarrow> cnt (yd_binary_description d) (yd_height d) r = yd_usual_description d ! nat r"
proof -
  let ?ud = "yd_usual_description d"
  have ok: "rows_ok (yd_width d) ?ud" and len: "length ?ud = nat (yd_height d)"
    and h: "0 \<le> yd_height d" and w: "0 \<le> yd_width d"
    and n: "yd_n d = yd_height d + yd_width d"
    and bd: "yd_binary_description d = binary_walk (nat (yd_n d)) ?ud 0 (yd_height d) []"
    using assms unfolding wf_diagram_def by simp_all
  have first: "0 < yd_height d \<Longrightarrow> 0 \<le> ?ud ! nat (yd_height d - 1)"
    using rows_ok_nth(3)[OF ok, of "nat (yd_height d - 1)"] len by simp
  have all: "count_list (binary_walk (nat (yd_n d)) ?ud 0 (yd_height d) []) (CHR ''U'') = nat (yd_height d)
       \<and> count_list (binary_walk (nat (yd_n d)) ?ud 0 (yd_height d) []) (CHR ''R'') = nat (yd_width d - 0)
       \<and> (\<forall>r. 0 \<le> r \<and> r < yd_height d \<longrightarrow>
             cnt (binary_walk (nat (yd_n d)) ?ud 0 (yd_height d) []) (yd_height d) r = ?ud ! nat r - 0)"
    using h w len n first
    by (intro binary_walk_decode[of ?ud "yd_width d"] rows_ok_nth(1)[OF ok] rows_ok_nth(2)[OF ok])
       (simp_all add: algebra_simps)
  show "count_list (yd_binary_description d) (CHR ''U'') = nat (yd_height d)"
    "count_list (yd_binary_description d) (CHR ''R'') = nat (yd_width d)"
    "\<And>r. 0 \<le> r \<Longrightarrow> r < yd_height d
            \<Longrightarrow> cnt (yd_binary_description d) (yd_height d) r = yd_usual_description d ! nat r"
    using all unfolding bd[symmetric] by simp_all
  show "length (yd_binary_description d) = nat (yd_n d)"
    by (subst bd) (rule length_binary_walk)
  show "set (yd_binary_description d) \<subseteq> {CHR ''U'', CHR ''R''}"
    by (subst bd) (rule set_binary_walk)
qed

lemma wf_decode:
  assumes "wf_diagram d"
  shows "Construct_From_Binary_Description (yd_binary_description d) = Inr d"
proof -
  let ?bd = "yd_binary_description d" and ?h = "yd_height d" and ?ud = "yd_usual_description d"
  have h: "0 \<le> ?h" and w: "0 \<le> yd_width d" and n: "yd_n d = ?h + yd_width d"
    and len: "length ?ud = nat ?h"
    using assms unfolding wf_diagram_def by simp_all
  have rows: "map (row_width (column_heights_loop ?bd ?h [])) (map int [0..<nat ?h]) = ?ud"
  proof (rule nth_equalityI)
    show "length (map (row_width (column_heights_loop ?bd ?h [])) (map int [0..<nat ?h])) = length ?ud"
      using len by simp
  next
    fix i assume "i < length (map (row_width (column_heights_loop ?bd ?h [])) (map int [0..<nat ?h]))"
    then have i: "i < nat ?h" by simp
    then show "map (row_width (column_heights_loop ?bd ?h [])) (map int [0..<nat ?h]) ! i = ?ud ! i"
      using wf_binary(5)[OF assms, of "int i"] by (simp add: cnt_def)
  qed
  show ?thesis
    unfolding Construct_From_Binary_Description_def
    using h w n wf_binary(1-3)[OF assms] rows wf_init[OF assms]
    by (simp add: Let_def)
qed

section \<open>Decoding any string over U and R\<close>

lemma length_UR:
  "set s \<subseteq> {CHR ''U'', CHR ''R''}
     \<Longrightarrow> length s = count_list s (CHR ''U'') + count_list s (CHR ''R'')"
  by (induction s) auto

lemma cnt_nonneg: "0 \<le> cnt s c r"
  by (simp add: cnt_def row_width_filter)

lemma cnt_le_count: "cnt s c r \<le> int (count_list s (CHR ''R''))"
proof (induction s arbitrary: c)
  case Nil
  show ?case by simp
next
  case (Cons v s)
  show ?case
    using Cons.IH[of c] Cons.IH[of "c - 1"]
    by (cases "v = CHR ''U''"; cases "v = CHR ''R''") simp_all
qed

lemma cnt_antimono: "r \<le> r' \<Longrightarrow> cnt s c r' \<le> cnt s c r"
proof (induction s arbitrary: c)
  case Nil
  show ?case by simp
next
  case (Cons v s)
  show ?case
    using Cons.prems Cons.IH[of c] Cons.IH[of "c - 1"]
    by (cases "v = CHR ''U''"; cases "v = CHR ''R''") simp_all
qed

lemma rows_ok_cnt:
  "rows_ok (int (count_list s (CHR ''R''))) (map (\<lambda>r. cnt s c (int r)) [0..<m])"
proof -
  have "sorted_wrt (\<lambda>a b. b \<le> a) (map (\<lambda>r. cnt s c (int r)) [0..<m])"
    by (simp add: sorted_wrt_iff_nth_less cnt_antimono)
  then show ?thesis
    by (simp add: rows_ok_iff cnt_nonneg cnt_le_count)
qed

lemma binary_walk_encode:
  "set t \<subseteq> {CHR ''U'', CHR ''R''} \<Longrightarrow> int (count_list t (CHR ''U'')) = y
     \<Longrightarrow> (\<And>r. 0 \<le> r \<Longrightarrow> r < y \<Longrightarrow> ud ! nat r = x + cnt t y r)
     \<Longrightarrow> binary_walk (length t) ud x y [] = t"
proof (induction t arbitrary: x y)
  case Nil
  show ?case by simp
next
  case (Cons c t)
  have c: "c = CHR ''U'' \<or> c = CHR ''R''" and t: "set t \<subseteq> {CHR ''U'', CHR ''R''}"
    using Cons.prems(1) by auto
  show ?case
  proof (cases "c = CHR ''U''")
    case True
    have y: "0 < y" and cu: "int (count_list t (CHR ''U'')) = y - 1"
      using Cons.prems(2) True by simp_all
    have "ud ! nat (y - 1) = x + cnt (c # t) y (y - 1)"
      using Cons.prems(3)[of "y - 1"] y by simp
    then have eq: "ud ! nat (y - 1) = x" using True by (simp add: cnt_zero)
    have rest: "binary_walk (length t) ud x (y - 1) [] = t"
    proof (rule Cons.IH[OF t cu])
      fix r assume "0 \<le> r" "r < y - 1"
      then show "ud ! nat r = x + cnt t (y - 1) r"
        using Cons.prems(3)[of r] True by simp
    qed
    show ?thesis using y eq rest True
      by (simp add: binary_walk_Suc del: binary_walk.simps)
  next
    case False
    then have cR: "c = CHR ''R''" using c by simp
    have cu: "int (count_list t (CHR ''U'')) = y" using Cons.prems(2) cR by simp
    have rest: "binary_walk (length t) ud (x + 1) y [] = t"
    proof (rule Cons.IH[OF t cu])
      fix r assume "0 \<le> r" "r < y"
      then show "ud ! nat r = x + 1 + cnt t y r"
        using Cons.prems(3)[of r] cR by simp
    qed
    show ?thesis
    proof (cases "y = 0")
      case True
      have "binary_walk (length t) ud x 0 [] = t"
        by (rule Cons.IH[OF t]) (use cu True in simp_all)
      then show ?thesis using True cR by (simp add: binary_walk_Suc del: binary_walk.simps)
    next
      case False
      then have y: "0 < y" using cu by linarith
      have "ud ! nat (y - 1) = x + cnt (c # t) y (y - 1)"
        using Cons.prems(3)[of "y - 1"] y by simp
      then have "x < ud ! nat (y - 1)" using cR cnt_nonneg[of t y "y - 1"] by simp
      then show ?thesis using False rest cR
        by (simp add: binary_walk_Suc del: binary_walk.simps)
    qed
  qed
qed

lemma decode_UR:
  assumes "set s \<subseteq> {CHR ''U'', CHR ''R''}"
  shows "\<exists>d. Construct_From_Binary_Description s = Inr d \<and> wf_diagram d
           \<and> yd_height d = int (count_list s (CHR ''U''))
           \<and> yd_width d = int (count_list s (CHR ''R''))
           \<and> yd_usual_description d =
               map (\<lambda>r. cnt s (int (count_list s (CHR ''U''))) (int r))
                 [0..<count_list s (CHR ''U'')]
           \<and> yd_binary_description d = s"
proof -
  let ?h = "count_list s (CHR ''U'')" and ?w = "count_list s (CHR ''R'')"
  let ?ud = "map (\<lambda>r. cnt s (int ?h) (int r)) [0..<?h]"
  have len: "length s = ?h + ?w" by (rule length_UR[OF assms])
  have rows: "map (row_width (column_heights_loop s (int ?h) []) \<circ> int) [0..<?h] = ?ud"
    by (simp add: cnt_def)
  have ok: "rows_ok (int ?w) ?ud" by (rule rows_ok_cnt)
  have walk: "binary_walk (length s) ?ud 0 (int ?h) [] = s"
  proof (rule binary_walk_encode[OF assms])
    fix r :: int assume r: "0 \<le> r" "r < int ?h"
    then have "nat r < ?h" by simp
    then have "?ud ! nat r = cnt s (int ?h) (int (nat r))" by simp
    then show "?ud ! nat r = 0 + cnt s (int ?h) r" using r by simp
  qed simp
  have "Construct_From_Binary_Description s =
      Inr \<lparr>yd_height = int ?h, yd_width = int ?w, yd_n = int ?h + int ?w,
           yd_usual_description = ?ud, yd_binary_description = s\<rparr>"
    unfolding Construct_From_Binary_Description_def
    using len ok walk
    by (simp add: Let_def rows YoungDiagram_init_def check_rows_eq nat_add_distrib)
  moreover have "wf_diagram \<lparr>yd_height = int ?h, yd_width = int ?w, yd_n = int ?h + int ?w,
           yd_usual_description = ?ud, yd_binary_description = s\<rparr>"
    unfolding wf_diagram_def using ok walk len by (simp add: nat_add_distrib)
  ultimately show ?thesis by simp
qed

section \<open>Round trip of the two constructors\<close>

text \<open>
  Claim C1. For all valid inputs of the row-lengths constructor (height and width
  non-negative, at most \<open>height\<close> row lengths, weakly decreasing, each between 0 and
  the width) the constructor returns a diagram \<open>d\<close>, and decoding the binary
  description of \<open>d\<close> with \<open>Construct_From_Binary_Description\<close> returns \<open>d\<close> itself:
  the same height, width and row lengths (and the same binary description). In the
  other direction, every string \<open>s\<close> over \<open>U\<close> and \<open>R\<close> is decoded to a diagram \<open>d\<close> that
  the row-lengths constructor returns for the height, width and row lengths of \<open>d\<close>,
  and whose binary description is \<open>s\<close> again.
\<close>

theorem roundtrip_from_row_lengths:
  assumes "0 \<le> height" and "0 \<le> width"
    and "int (length row_lengths) \<le> height"
    and "sorted_wrt (\<lambda>a b. b \<le> a) row_lengths"
    and "\<forall>e \<in> set row_lengths. 0 \<le> e \<and> e \<le> width"
  shows "(\<exists>d. YoungDiagram_init height width row_lengths = Inr d
            \<and> Construct_From_Binary_Description (yd_binary_description d) = Inr d)
       \<and> (\<forall>s. set s \<subseteq> {CHR ''U'', CHR ''R''} \<longrightarrow>
             (\<exists>d. Construct_From_Binary_Description s = Inr d
                \<and> YoungDiagram_init (yd_height d) (yd_width d) (yd_usual_description d) = Inr d
                \<and> yd_binary_description d = s))"
proof (intro conjI allI impI)
  have "rows_ok width row_lengths" using assms(4,5) by (simp add: rows_ok_iff)
  then obtain d where d: "YoungDiagram_init height width row_lengths = Inr d"
    using init_valid[OF assms(1-3)] by blast
  then show "\<exists>d. YoungDiagram_init height width row_lengths = Inr d
            \<and> Construct_From_Binary_Description (yd_binary_description d) = Inr d"
    using wf_decode[OF init_wf(1)[OF d]] by blast
next
  fix s :: string assume "set s \<subseteq> {CHR ''U'', CHR ''R''}"
  then obtain d where "Construct_From_Binary_Description s = Inr d" "wf_diagram d"
    "yd_binary_description d = s"
    using decode_UR by blast
  then show "\<exists>d. Construct_From_Binary_Description s = Inr d
                \<and> YoungDiagram_init (yd_height d) (yd_width d) (yd_usual_description d) = Inr d
                \<and> yd_binary_description d = s"
    using wf_init by blast
qed

theorem roundtrip_from_row_lengths_witness:
  "(\<exists>d. YoungDiagram_init 2 2 [2, 1] = Inr d
       \<and> Construct_From_Binary_Description (yd_binary_description d) = Inr d)
   \<and> (\<exists>d. Construct_From_Binary_Description ''RURU'' = Inr d
       \<and> YoungDiagram_init (yd_height d) (yd_width d) (yd_usual_description d) = Inr d
       \<and> yd_binary_description d = ''RURU'')"
proof -
  have s: "set ''RURU'' \<subseteq> {CHR ''U'', CHR ''R''}" by simp
  have "(\<exists>d. YoungDiagram_init 2 2 [2, 1] = Inr d
            \<and> Construct_From_Binary_Description (yd_binary_description d) = Inr d)
       \<and> (\<forall>s. set s \<subseteq> {CHR ''U'', CHR ''R''} \<longrightarrow>
             (\<exists>d. Construct_From_Binary_Description s = Inr d
                \<and> YoungDiagram_init (yd_height d) (yd_width d) (yd_usual_description d) = Inr d
                \<and> yd_binary_description d = s))"
    by (rule roundtrip_from_row_lengths[of 2 2 "[2, 1]"]) simp_all
  then show ?thesis using s by blast
qed

section \<open>Slices, complement and cyclic action\<close>

lemma set_slices:
  "set (slice_from s a @ slice_to s b) \<subseteq> set s"
proof -
  have "set (slice_from s a) \<subseteq> set s"
    by (simp add: slice_from_def set_drop_subset)
  moreover have "set (slice_to s b) \<subseteq> set s"
    by (simp add: slice_to_def set_take_subset)
  ultimately show ?thesis by simp
qed

lemma rotation_slices:
  assumes "0 < k" "k < n" "int (length s) = n"
  shows "slice_from s (n - k) @ slice_to s (- k) = drop (nat (n - k)) s @ take (nat (n - k)) s"
  using assms by (simp add: slice_from_def slice_to_def)

lemma count_list_drop_take:
  "count_list (drop m s @ take m s) c = count_list s c"
proof -
  have "count_list (take m s @ drop m s) c = count_list s c" by simp
  then show ?thesis by (simp only: count_list_append add.commute)
qed

lemma decode_UR_basic:
  assumes "set s \<subseteq> {CHR ''U'', CHR ''R''}"
  obtains d where "Construct_From_Binary_Description s = Inr d" and "wf_diagram d"
    and "yd_height d = int (count_list s (CHR ''U''))"
    and "yd_width d = int (count_list s (CHR ''R''))"
    and "yd_binary_description d = s"
  using decode_UR[OF assms] by blast

lemma complement_wf:
  assumes "wf_diagram d"
  shows "\<exists>c. complement d = Inr c \<and> wf_diagram c
           \<and> yd_height c = yd_height d \<and> yd_width c = yd_width d
           \<and> yd_binary_description c = rev (yd_binary_description d)"
proof -
  have s: "set (rev (yd_binary_description d)) \<subseteq> {CHR ''U'', CHR ''R''}"
    using wf_binary(4)[OF assms] by simp
  have h: "0 \<le> yd_height d" "0 \<le> yd_width d" using assms by (simp_all add: wf_diagram_def)
  obtain c where c: "Construct_From_Binary_Description (rev (yd_binary_description d)) = Inr c"
    "wf_diagram c" "yd_height c = int (count_list (rev (yd_binary_description d)) (CHR ''U''))"
    "yd_width c = int (count_list (rev (yd_binary_description d)) (CHR ''R''))"
    "yd_binary_description c = rev (yd_binary_description d)"
    by (rule decode_UR_basic[OF s])
  have "yd_height c = yd_height d" "yd_width c = yd_width d"
    using c(3,4) wf_binary(1,2)[OF assms] h by simp_all
  then show ?thesis using c(1,2,5) by (simp add: complement_def Let_def)
qed

lemma cyclic_action_wf:
  assumes "wf_diagram d" "0 < yd_n d" "steps mod yd_n d \<noteq> 0"
  shows "\<exists>e. cyclic_action d steps = Inr e \<and> wf_diagram e
           \<and> yd_height e = yd_height d \<and> yd_width e = yd_width d
           \<and> yd_binary_description e =
               drop (nat (yd_n d - steps mod yd_n d)) (yd_binary_description d)
                 @ take (nat (yd_n d - steps mod yd_n d)) (yd_binary_description d)"
proof -
  let ?n = "yd_n d" and ?k = "steps mod yd_n d" and ?old = "yd_binary_description d"
  let ?new = "drop (nat (?n - ?k)) ?old @ take (nat (?n - ?k)) ?old"
  have k: "0 < ?k" "?k < ?n"
    using assms(2,3) pos_mod_sign[of ?n steps] pos_mod_bound[of ?n steps] by linarith+
  have len: "int (length ?old) = ?n" using wf_binary(3)[OF assms(1)] assms(2) by simp
  have new: "slice_from ?old (?n - ?k) @ slice_to ?old (- ?k) = ?new"
    by (rule rotation_slices[OF k len])
  have s: "set ?new \<subseteq> {CHR ''U'', CHR ''R''}"
    using set_slices[of ?old "?n - ?k" "- ?k"] wf_binary(4)[OF assms(1)] unfolding new by blast
  have h: "0 \<le> yd_height d" "0 \<le> yd_width d"
    using assms(1) by (simp_all add: wf_diagram_def)
  have ca: "cyclic_action d steps = Construct_From_Binary_Description ?new"
    using assms(2) new by (simp add: cyclic_action_def Let_def)
  obtain e where e: "Construct_From_Binary_Description ?new = Inr e"
    "wf_diagram e" "yd_height e = int (count_list ?new (CHR ''U''))"
    "yd_width e = int (count_list ?new (CHR ''R''))"
    "yd_binary_description e = ?new"
    by (rule decode_UR_basic[OF s])
  have "yd_height e = yd_height d"
    unfolding e(3) count_list_drop_take using wf_binary(1)[OF assms(1)] h by simp
  moreover have "yd_width e = yd_width d"
    unfolding e(4) count_list_drop_take using wf_binary(2)[OF assms(1)] h by simp
  ultimately show ?thesis using e(1,2,5) ca by simp
qed

lemma cyclic_action_returns:
  assumes "wf_diagram d" "0 < yd_n d"
  shows "\<exists>e. cyclic_action d steps = Inr e"
proof -
  let ?n = "yd_n d" and ?k = "steps mod yd_n d" and ?old = "yd_binary_description d"
  have s: "set (slice_from ?old (?n - ?k) @ slice_to ?old (- ?k)) \<subseteq> {CHR ''U'', CHR ''R''}"
    using set_slices[of ?old "?n - ?k" "- ?k"] wf_binary(4)[OF assms(1)] by blast
  show ?thesis
    using decode_UR_basic[OF s] assms(2) by (metis cyclic_action_def)
qed

section \<open>Box dimensions of the transforms\<close>

text \<open>
  Claim C9. For every diagram \<open>d\<close> that the constructor returns and whose perimeter
  \<open>yd_n d\<close> is positive, \<open>complement\<close> returns a diagram with the height and the width
  of \<open>d\<close>, and so does \<open>cyclic_action\<close> for every integer \<open>steps\<close> whose residue modulo
  the perimeter is not zero.
\<close>

theorem transforms_keep_box:
  assumes "YoungDiagram_init h w rl = Inr d" and "0 < yd_n d"
  shows "(\<exists>c. complement d = Inr c \<and> yd_height c = yd_height d \<and> yd_width c = yd_width d)
       \<and> (\<forall>steps. steps mod yd_n d \<noteq> 0 \<longrightarrow>
            (\<exists>e. cyclic_action d steps = Inr e
                  \<and> yd_height e = yd_height d \<and> yd_width e = yd_width d))"
proof -
  have wf: "wf_diagram d" by (rule init_wf(1)[OF assms(1)])
  show ?thesis
    using complement_wf[OF wf] cyclic_action_wf[OF wf assms(2)] by blast
qed

theorem transforms_keep_box_witness:
  "(\<exists>c. complement \<lparr>yd_height = 2, yd_width = 2, yd_n = 4, yd_usual_description = [2, 1],
                        yd_binary_description = ''RURU''\<rparr> = Inr c
        \<and> yd_height c = 2 \<and> yd_width c = 2)
   \<and> (\<exists>e. cyclic_action \<lparr>yd_height = 2, yd_width = 2, yd_n = 4,
                   yd_usual_description = [2, 1], yd_binary_description = ''RURU''\<rparr> 1 = Inr e
        \<and> yd_height e = 2 \<and> yd_width e = 2)"
proof -
  have init: "YoungDiagram_init 2 2 [2, 1] =
      Inr \<lparr>yd_height = 2, yd_width = 2, yd_n = 4, yd_usual_description = [2, 1],
           yd_binary_description = ''RURU''\<rparr>"
    by code_simp
  have "(1::int) mod 4 \<noteq> 0" by simp
  then show ?thesis using transforms_keep_box[OF init] by simp
qed

section \<open>Unsupported operations\<close>

text \<open>
  Claim C7, as the code has it. For every diagram \<open>d\<close> that the constructor returns:
  \<open>is_upper_triangular\<close> raises \<open>NotImplementedError\<close> exactly when the height is 0
  and returns a truth value otherwise (also when only the width is 0); \<open>slope\<close> raises
  it exactly when the width is 0 and returns height / width otherwise (also when only
  the height is 0); \<open>cyclic_action\<close> raises it exactly when height and width are both
  0 and returns a diagram otherwise.
\<close>

theorem unsupported_operations:
  assumes "YoungDiagram_init h w rl = Inr d"
  shows "(is_upper_triangular d = Inl NotImplementedError \<longleftrightarrow> yd_height d = 0)
       \<and> (yd_height d \<noteq> 0 \<longrightarrow> (\<exists>b. is_upper_triangular d = Inr b))
       \<and> (slope d = Inl NotImplementedError \<longleftrightarrow> yd_width d = 0)
       \<and> (yd_width d \<noteq> 0 \<longrightarrow> slope d = Inr (of_int (yd_height d) / of_int (yd_width d)))
       \<and> (\<forall>steps. cyclic_action d steps = Inl NotImplementedError
                    \<longleftrightarrow> yd_height d = 0 \<and> yd_width d = 0)
       \<and> (\<forall>steps. \<not> (yd_height d = 0 \<and> yd_width d = 0)
                    \<longrightarrow> (\<exists>e. cyclic_action d steps = Inr e))"
proof -
  have wf: "wf_diagram d" by (rule init_wf(1)[OF assms])
  then have h: "0 \<le> yd_height d" and w: "0 \<le> yd_width d"
    and n: "yd_n d = yd_height d + yd_width d"
    by (simp_all add: wf_diagram_def)
  have up: "is_upper_triangular d = Inl NotImplementedError \<longleftrightarrow> yd_height d = 0"
    using h by (auto simp: is_upper_triangular_def Let_def)
  have up': "yd_height d \<noteq> 0 \<longrightarrow> (\<exists>b. is_upper_triangular d = Inr b)"
    using h by (auto simp: is_upper_triangular_def Let_def)
  have sl: "slope d = Inl NotImplementedError \<longleftrightarrow> yd_width d = 0"
    using w by (auto simp: slope_def)
  have sl': "yd_width d \<noteq> 0 \<longrightarrow> slope d = Inr (of_int (yd_height d) / of_int (yd_width d))"
    using w by (auto simp: slope_def)
  have ca: "cyclic_action d steps = Inl NotImplementedError
              \<longleftrightarrow> yd_height d = 0 \<and> yd_width d = 0" for steps
  proof (cases "0 < yd_n d")
    case True
    then show ?thesis using cyclic_action_returns[OF wf True, of steps] h w n by auto
  next
    case False
    then show ?thesis using h w n by (auto simp: cyclic_action_def)
  qed
  have ca': "\<not> (yd_height d = 0 \<and> yd_width d = 0) \<longrightarrow> (\<exists>e. cyclic_action d steps = Inr e)"
    for steps
    using cyclic_action_returns[OF wf, of steps] h w n by auto
  show ?thesis using up up' sl sl' ca ca' by blast
qed

theorem unsupported_operations_witness:
  "is_upper_triangular \<lparr>yd_height = 0, yd_width = 1, yd_n = 1, yd_usual_description = [],
                         yd_binary_description = ''R''\<rparr> = Inl NotImplementedError
   \<and> slope \<lparr>yd_height = 0, yd_width = 1, yd_n = 1, yd_usual_description = [],
              yd_binary_description = ''R''\<rparr> = Inr 0
   \<and> (\<forall>steps. \<exists>e. cyclic_action \<lparr>yd_height = 0, yd_width = 1, yd_n = 1,
                         yd_usual_description = [], yd_binary_description = ''R''\<rparr> steps = Inr e)"
proof -
  have init: "YoungDiagram_init 0 1 [] =
      Inr \<lparr>yd_height = 0, yd_width = 1, yd_n = 1, yd_usual_description = [],
           yd_binary_description = ''R''\<rparr>"
    by code_simp
  show ?thesis using unsupported_operations[OF init] by simp
qed

text \<open>
  The claim as stated fails: the diagram of height 0 and width 1 has a slope, 0, and
  \<open>cyclic_action\<close> returns a diagram for it; the diagram of height 1 and width 0 is
  upper triangular, and \<open>cyclic_action\<close> returns a diagram for it as well.
\<close>

theorem unsupported_operations_counterexample:
  "YoungDiagram_init 0 1 [] =
     Inr \<lparr>yd_height = 0, yd_width = 1, yd_n = 1, yd_usual_description = [],
          yd_binary_description = ''R''\<rparr>
   \<and> slope \<lparr>yd_height = 0, yd_width = 1, yd_n = 1, yd_usual_description = [],
              yd_binary_description = ''R''\<rparr> = Inr 0
   \<and> cyclic_action \<lparr>yd_height = 0, yd_width = 1, yd_n = 1, yd_usual_description = [],
                      yd_binary_description = ''R''\<rparr> 1
       = Inr \<lparr>yd_height = 0, yd_width = 0, yd_n = 0, yd_usual_description = [],
              yd_binary_description = []\<rparr>
   \<and> YoungDiagram_init 1 0 [] =
       Inr \<lparr>yd_height = 1, yd_width = 0, yd_n = 1, yd_usual_description = [0],
            yd_binary_description = ''U''\<rparr>
   \<and> is_upper_triangular \<lparr>yd_height = 1, yd_width = 0, yd_n = 1, yd_usual_description = [0],
                            yd_binary_description = ''U''\<rparr> = Inr True
   \<and> cyclic_action \<lparr>yd_height = 1, yd_width = 0, yd_n = 1, yd_usual_description = [0],
                      yd_binary_description = ''U''\<rparr> 1
       = Inr \<lparr>yd_height = 0, yd_width = 0, yd_n = 0, yd_usual_description = [],
              yd_binary_description = []\<rparr>"
  by code_simp

section \<open>Volume of the complement\<close>

lemma sum_cnt_R:
  "sum_list (map (\<lambda>r. cnt (CHR ''R'' # t) (int h) (int r)) [0..<h])
     = int h + sum_list (map (\<lambda>r. cnt t (int h) (int r)) [0..<h])"
proof -
  have "sum_list (map (\<lambda>r. cnt (CHR ''R'' # t) (int h) (int r)) [0..<h])
      = (\<Sum>r \<in> {0..<h}. cnt (CHR ''R'' # t) (int h) (int r))"
    by (simp add: interv_sum_list_conv_sum_set_nat)
  also have "\<dots> = (\<Sum>r \<in> {0..<h}. 1 + cnt t (int h) (int r))"
    by (rule sum.cong) auto
  also have "\<dots> = int h + (\<Sum>r \<in> {0..<h}. cnt t (int h) (int r))"
    by (simp add: sum.distrib)
  finally show ?thesis by (simp add: interv_sum_list_conv_sum_set_nat)
qed

lemma sum_cnt_pairs:
  "sum_list (map (\<lambda>r. cnt s (int (count_list s (CHR ''U''))) (int r))
       [0..<count_list s (CHR ''U'')]) = pairs s"
proof (induction s)
  case Nil
  show ?case by simp
next
  case (Cons c t)
  show ?case
  proof (cases "c = CHR ''U''")
    case True
    then show ?thesis using Cons.IH by (simp add: cnt_zero)
  next
    case False
    show ?thesis
    proof (cases "c = CHR ''R''")
      case True
      then show ?thesis using Cons.IH sum_cnt_R[of t "count_list t (CHR ''U'')"] by simp
    next
      case False
      then show ?thesis using \<open>c \<noteq> CHR ''U''\<close> Cons.IH by simp
    qed
  qed
qed

lemma pairs_snoc:
  "pairs (s @ [c]) = pairs s + (if c = CHR ''U'' then int (count_list s (CHR ''R'')) else 0)"
  by (induction s) simp_all

lemma pairs_rev:
  "pairs s + pairs (rev s) = int (count_list s (CHR ''U'')) * int (count_list s (CHR ''R''))"
proof (induction s)
  case Nil
  show ?case by simp
next
  case (Cons c t)
  then show ?case by (simp add: pairs_snoc algebra_simps)
qed

lemma volume_decode:
  assumes "set s \<subseteq> {CHR ''U'', CHR ''R''}"
    and "Construct_From_Binary_Description s = Inr d"
  shows "volume d = pairs s"
  using decode_UR[OF assms(1)] assms(2) by (auto simp: volume_def sum_cnt_pairs)

text \<open>
  Claim C10. For every diagram \<open>d\<close> that the constructor returns, \<open>complement\<close> returns
  a diagram whose volume is height times width of \<open>d\<close> minus the volume of \<open>d\<close>.
\<close>

theorem complement_volume:
  assumes "YoungDiagram_init h w rl = Inr d"
  shows "\<exists>c. complement d = Inr c \<and> volume c = yd_height d * yd_width d - volume d"
proof -
  let ?bd = "yd_binary_description d"
  have wf: "wf_diagram d" by (rule init_wf(1)[OF assms])
  have hw: "0 \<le> yd_height d" "0 \<le> yd_width d" using wf by (simp_all add: wf_diagram_def)
  have s: "set ?bd \<subseteq> {CHR ''U'', CHR ''R''}" by (rule wf_binary(4)[OF wf])
  have vd: "volume d = pairs ?bd" by (rule volume_decode[OF s wf_decode[OF wf]])
  obtain c where c: "complement d = Inr c" using complement_wf[OF wf] by blast
  then have "Construct_From_Binary_Description (rev ?bd) = Inr c"
    by (simp add: complement_def Let_def)
  then have vc: "volume c = pairs (rev ?bd)" using s by (intro volume_decode) simp_all
  have "pairs ?bd + pairs (rev ?bd) = yd_height d * yd_width d"
    using pairs_rev[of ?bd] wf_binary(1,2)[OF wf] hw by simp
  then show ?thesis using c vd vc by simp
qed

theorem complement_volume_witness:
  "\<exists>c. complement \<lparr>yd_height = 2, yd_width = 2, yd_n = 4, yd_usual_description = [2, 1],
                       yd_binary_description = ''RURU''\<rparr> = Inr c
       \<and> volume c = 1"
proof -
  have init: "YoungDiagram_init 2 2 [2, 1] =
      Inr \<lparr>yd_height = 2, yd_width = 2, yd_n = 4, yd_usual_description = [2, 1],
           yd_binary_description = ''RURU''\<rparr>"
    by code_simp
  show ?thesis using complement_volume[OF init] by (simp add: volume_def)
qed

section \<open>Rotation of codes\<close>

lemma shift1_eq: "shift1 s = (if s = [] then [] else last s # butlast s)"
proof (cases "s = []")
  case True
  then show ?thesis by (simp add: shift1_def slice_from_def slice_to_def)
next
  case False
  then have len: "0 < length s" by simp
  have "drop (length s - 1) s = [last s]"
    using False by (metis append_butlast_last_id append_eq_conv_conj length_butlast)
  moreover have "take (length s - 1) s = butlast s" by (simp add: butlast_conv_take)
  moreover have "nat (int (length s) - 1) = length s - 1" by simp
  ultimately show ?thesis
    using False len by (simp add: shift1_def slice_from_def slice_to_def)
qed

lemma rotate1_shift1 [simp]: "rotate1 (shift1 s) = s"
  by (simp add: shift1_eq)

lemma shift1_rotate1 [simp]: "shift1 (rotate1 s) = s"
  by (cases s) (simp_all add: shift1_eq)

lemma length_shift1 [simp]: "length (shift1 s) = length s"
  by (simp add: shift1_eq)

lemma set_shift1 [simp]: "set (shift1 s) = set s"
  by (metis rotate1_shift1 set_rotate1)

lemma length_shift1_funpow [simp]: "length ((shift1 ^^ k) s) = length s"
  by (induction k) simp_all

lemma set_shift1_funpow [simp]: "set ((shift1 ^^ k) s) = set s"
  by (induction k) simp_all

lemma rotate_shift1_funpow: "rotate k ((shift1 ^^ k) s) = s"
proof (induction k)
  case 0
  show ?case by simp
next
  case (Suc k)
  have "rotate (Suc k) ((shift1 ^^ Suc k) s) = rotate k (rotate1 (shift1 ((shift1 ^^ k) s)))"
    by (simp add: rotate1_rotate_swap)
  then show ?case using Suc.IH by simp
qed

lemma rotate_rotate_right: "rotate k (rotate_right k s) = s"
proof (cases "s = []")
  case True
  then show ?thesis by (simp add: rotate_right_def)
next
  case False
  then have len: "0 < length s" by simp
  have "k mod length s \<le> k" by simp
  moreover have "k mod length s < length s" using len by simp
  ultimately have "(k + (length s - k mod length s)) mod length s
      = ((k - k mod length s) + length s) mod length s"
    by simp
  also have "\<dots> = 0" by (simp add: minus_mod_eq_mult_div)
  finally show ?thesis by (simp add: rotate_right_def rotate_rotate)
qed

lemma inj_rotate: "inj (rotate k :: 'a list \<Rightarrow> 'a list)"
  unfolding rotate_def by (rule inj_fn[OF inj_rotate1])

lemma shift1_funpow_eq: "(shift1 ^^ k) s = rotate_right k s"
proof -
  have "rotate k ((shift1 ^^ k) s) = rotate k (rotate_right k s)"
    by (simp add: rotate_shift1_funpow rotate_rotate_right)
  then show ?thesis by (rule injD[OF inj_rotate])
qed

lemma rotate_right_mod: "rotate_right (k mod length s) s = rotate_right k s"
  by (simp add: rotate_right_def)

lemma rotate_right_length [simp]: "rotate_right (length s) s = s"
  by (simp add: rotate_right_def)

lemma rotate_right_0 [simp]: "rotate_right 0 s = s"
  by (simp add: rotate_right_def)

lemma rotate_right_drop_take:
  "0 < k \<Longrightarrow> k < length s
     \<Longrightarrow> rotate_right k s = drop (length s - k) s @ take (length s - k) s"
  by (simp add: rotate_right_def rotate_drop_take)

text \<open>The least positive period of a code under rotation.\<close>

lemma least_period:
  obtains k where "0 < k" and "k \<le> max 1 (length s)" and "rotate_right k s = s"
    and "\<And>j. 0 < j \<Longrightarrow> j < k \<Longrightarrow> rotate_right j s \<noteq> s"
    and "k dvd length s"
proof -
  let ?P = "\<lambda>k. 0 < k \<and> rotate_right k s = s"
  have ex: "?P (max 1 (length s))"
    by (cases "length s = 0") (simp_all add: max_def rotate_right_def)
  define k where "k = (LEAST k. ?P k)"
  have Pk: "?P k" unfolding k_def by (rule LeastI[of ?P, OF ex])
  have le: "k \<le> max 1 (length s)" unfolding k_def by (rule Least_le[of ?P, OF ex])
  have min: "rotate_right j s \<noteq> s" if "0 < j" "j < k" for j
    using not_less_Least[of j ?P] that unfolding k_def by blast
  have "k dvd length s"
  proof (rule ccontr)
    assume nd: "\<not> k dvd length s"
    then have r: "0 < length s mod k" "length s mod k < k"
      using Pk by (simp_all add: dvd_eq_mod_eq_0)
    have "(shift1 ^^ k) s = s" using Pk by (simp add: shift1_funpow_eq)
    then have "(shift1 ^^ (length s mod k)) s = (shift1 ^^ length s) s"
      by (rule funpow_mod_eq)
    then have "rotate_right (length s mod k) s = s" by (simp add: shift1_funpow_eq)
    then show False using min[OF r] by simp
  qed
  then show ?thesis using that Pk le min by blast
qed

section \<open>The orbit length\<close>

lemma orbit_length_loop_step:
  assumes "int (length previous) = n"
  shows "orbit_length_loop n initial previous counter =
     (if shift1 previous = initial then Some (counter + 1)
      else orbit_length_loop n initial (shift1 previous) (counter + 1))"
  by (subst orbit_length_loop.simps) (simp add: Let_def shift1_def assms[symmetric])

lemma orbit_length_loop_returns:
  "int (length previous) = n \<Longrightarrow> (shift1 ^^ Suc j) previous = initial
     \<Longrightarrow> (\<And>i. 0 < i \<Longrightarrow> i \<le> j \<Longrightarrow> (shift1 ^^ i) previous \<noteq> initial)
     \<Longrightarrow> orbit_length_loop n initial previous counter = Some (counter + int (Suc j))"
proof (induction j arbitrary: previous counter)
  case 0
  then show ?case by (simp add: orbit_length_loop_step)
next
  case (Suc j)
  have ne: "shift1 previous \<noteq> initial" using Suc.prems(3)[of 1] by simp
  have "orbit_length_loop n initial (shift1 previous) (counter + 1)
      = Some (counter + 1 + int (Suc j))"
  proof (rule Suc.IH)
    show "int (length (shift1 previous)) = n" using Suc.prems(1) by simp
    show "(shift1 ^^ Suc j) (shift1 previous) = initial"
      using Suc.prems(2) by (simp add: funpow_swap1)
    show "(shift1 ^^ i) (shift1 previous) \<noteq> initial" if "0 < i" "i \<le> j" for i
      using Suc.prems(3)[of "Suc i"] that by (simp add: funpow_swap1)
  qed
  then show ?case using ne Suc.prems(1) by (simp add: orbit_length_loop_step)
qed

text \<open>
  Claim C5. For every diagram \<open>d\<close> that the constructor returns, \<open>orbit_length\<close> returns
  a value \<open>k\<close>: the least positive number of positions by which the binary code of
  \<open>d\<close>, rotated, is the code again; and \<open>k\<close> divides the perimeter, height plus width.
\<close>

theorem orbit_length_minimal_period:
  assumes "YoungDiagram_init h w rl = Inr d"
  shows "\<exists>k. orbit_length d = Some (int k) \<and> 0 < k
           \<and> rotate_right k (yd_binary_description d) = yd_binary_description d
           \<and> (\<forall>j. 0 < j \<and> j < k \<longrightarrow>
                 rotate_right j (yd_binary_description d) \<noteq> yd_binary_description d)
           \<and> int k dvd yd_height d + yd_width d"
proof -
  let ?s = "yd_binary_description d"
  have wf: "wf_diagram d" by (rule init_wf(1)[OF assms])
  then have n: "yd_n d = yd_height d + yd_width d" and n0: "0 \<le> yd_n d"
    by (simp_all add: wf_diagram_def)
  have len: "int (length ?s) = yd_n d" using wf_binary(3)[OF wf] n0 by simp
  obtain k where k: "0 < k" "rotate_right k ?s = ?s"
    "\<And>j. 0 < j \<Longrightarrow> j < k \<Longrightarrow> rotate_right j ?s \<noteq> ?s" "k dvd length ?s"
    by (rule least_period[of ?s]) blast
  obtain j where j: "k = Suc j" using k(1) by (cases k) simp_all
  have "orbit_length_loop (yd_n d) ?s ?s 0 = Some (0 + int (Suc j))"
  proof (rule orbit_length_loop_returns[OF len])
    show "(shift1 ^^ Suc j) ?s = ?s" using k(2) j by (simp only: shift1_funpow_eq)
    show "(shift1 ^^ i) ?s \<noteq> ?s" if "0 < i" "i \<le> j" for i
      using k(3)[of i] that j by (simp add: shift1_funpow_eq)
  qed
  then have ol: "orbit_length d = Some (int k)" by (simp add: orbit_length_def j)
  have "int k dvd int (length ?s)" using k(4) by simp
  then have "int k dvd yd_height d + yd_width d" using len n by simp
  then show ?thesis using ol k(1,2,3) by blast
qed

theorem orbit_length_minimal_period_witness:
  "\<exists>k. orbit_length \<lparr>yd_height = 2, yd_width = 2, yd_n = 4, yd_usual_description = [2, 1],
                      yd_binary_description = ''RURU''\<rparr> = Some (int k) \<and> 0 < k
      \<and> rotate_right k ''RURU'' = ''RURU''
      \<and> int k dvd 4"
proof -
  have init: "YoungDiagram_init 2 2 [2, 1] =
      Inr \<lparr>yd_height = 2, yd_width = 2, yd_n = 4, yd_usual_description = [2, 1],
           yd_binary_description = ''RURU''\<rparr>"
    by code_simp
  obtain k where "orbit_length \<lparr>yd_height = 2, yd_width = 2, yd_n = 4,
        yd_usual_description = [2, 1], yd_binary_description = ''RURU''\<rparr> = Some (int k)"
    "0 < k" "rotate_right k ''RURU'' = ''RURU''" "int k dvd 4"
    using orbit_length_minimal_period[OF init] by auto
  then show ?thesis by blast
qed

section \<open>The cyclic orbit\<close>

lemma wf_same_code:
  assumes "wf_diagram a" "wf_diagram b"
    and "yd_binary_description a = yd_binary_description b"
  shows "a = b"
proof -
  have "Inr a = Construct_From_Binary_Description (yd_binary_description a)"
    by (simp only: wf_decode[OF assms(1)])
  also have "\<dots> = Construct_From_Binary_Description (yd_binary_description b)"
    by (simp only: assms(3))
  also have "\<dots> = Inr b" by (simp only: wf_decode[OF assms(2)])
  finally show ?thesis by (simp only: sum.inject)
qed

lemma wf_yd_eq_iff:
  assumes "wf_diagram a" "wf_diagram b"
  shows "yd_eq a b \<longleftrightarrow> yd_binary_description a = yd_binary_description b"
proof
  assume "yd_eq a b"
  then show "yd_binary_description a = yd_binary_description b"
    using assms by (simp add: yd_eq_def repr_def wf_diagram_def)
next
  assume "yd_binary_description a = yd_binary_description b"
  then have "a = b" by (rule wf_same_code[OF assms])
  then show "yd_eq a b" by (simp add: yd_eq_def)
qed

lemma rshift_one:
  assumes "wf_diagram c" "2 \<le> yd_n c"
  obtains e where "rshift c 1 = Inr e" and "wf_diagram e"
    and "yd_height e = yd_height c" and "yd_width e = yd_width c" and "yd_n e = yd_n c"
    and "yd_binary_description e = shift1 (yd_binary_description c)"
proof -
  let ?n = "yd_n c" and ?s = "yd_binary_description c"
  have pos: "0 < ?n" and m: "1 mod ?n = 1" using assms(2) by simp_all
  then have nz: "1 mod ?n \<noteq> 0" by simp
  obtain e where e: "cyclic_action c 1 = Inr e" "wf_diagram e"
    "yd_height e = yd_height c" "yd_width e = yd_width c"
    "yd_binary_description e = drop (nat (?n - 1 mod ?n)) ?s @ take (nat (?n - 1 mod ?n)) ?s"
    using cyclic_action_wf[OF assms(1) pos nz] by blast
  have len: "int (length ?s) = ?n" using wf_binary(3)[OF assms(1)] pos by simp
  have "shift1 ?s = drop (nat (?n - 1)) ?s @ take (nat (?n - 1)) ?s"
    unfolding shift1_def len using rotation_slices[of 1 ?n ?s] assms(2) len by simp
  then have b: "yd_binary_description e = shift1 ?s" using e(5) m by simp
  have "yd_n e = yd_n c" using e(2,3,4) assms(1) by (simp add: wf_diagram_def)
  then show ?thesis using that e(1-4) b by (simp add: rshift_def)
qed

lemma cyclic_orbit_loop_returns:
  "wf_diagram first \<Longrightarrow> wf_diagram cur \<Longrightarrow> 2 \<le> yd_n cur
     \<Longrightarrow> (shift1 ^^ Suc j) (yd_binary_description cur) = yd_binary_description first
     \<Longrightarrow> (\<And>i. 0 < i \<Longrightarrow> i \<le> j
            \<Longrightarrow> (shift1 ^^ i) (yd_binary_description cur) \<noteq> yd_binary_description first)
     \<Longrightarrow> \<exists>ds. cyclic_orbit_loop first cur yielded = Some (Gen (yielded @ ds) None)
            \<and> length ds = Suc j
            \<and> (\<forall>i \<le> j. wf_diagram (ds ! i) \<and> yd_n (ds ! i) = yd_n cur
                 \<and> yd_binary_description (ds ! i) = (shift1 ^^ i) (yd_binary_description cur))"
proof (induction j arbitrary: cur yielded)
  case 0
  obtain e where e: "rshift cur 1 = Inr e" "wf_diagram e"
    "yd_binary_description e = shift1 (yd_binary_description cur)"
    using rshift_one[OF "0.prems"(2,3)] by metis
  have "yd_eq e first" using e "0.prems"(1,4) by (simp add: wf_yd_eq_iff)
  then have "cyclic_orbit_loop first cur yielded = Some (Gen (yielded @ [cur]) None)"
    using e(1) by (subst cyclic_orbit_loop.simps) simp
  then show ?case using "0.prems"(2) by (intro exI[of _ "[cur]"]) simp
next
  case (Suc j)
  obtain e where e: "rshift cur 1 = Inr e" "wf_diagram e" "yd_n e = yd_n cur"
    "yd_binary_description e = shift1 (yd_binary_description cur)"
    using rshift_one[OF Suc.prems(2,3)] by metis
  have "yd_binary_description e \<noteq> yd_binary_description first"
    using Suc.prems(5)[of 1] e(4) by simp
  then have ne: "\<not> yd_eq e first" using e(2) Suc.prems(1) by (simp add: wf_yd_eq_iff)
  have step: "cyclic_orbit_loop first cur yielded
      = cyclic_orbit_loop first e (yielded @ [cur])"
    using e(1) ne by (subst cyclic_orbit_loop.simps) simp
  have "\<exists>ds. cyclic_orbit_loop first e (yielded @ [cur])
            = Some (Gen ((yielded @ [cur]) @ ds) None)
        \<and> length ds = Suc j
        \<and> (\<forall>i \<le> j. wf_diagram (ds ! i) \<and> yd_n (ds ! i) = yd_n e
             \<and> yd_binary_description (ds ! i) = (shift1 ^^ i) (yd_binary_description e))"
  proof (rule Suc.IH[OF Suc.prems(1) e(2)])
    show "2 \<le> yd_n e" using e(3) Suc.prems(3) by simp
    show "(shift1 ^^ Suc j) (yd_binary_description e) = yd_binary_description first"
      using Suc.prems(4) e(4) by (simp add: funpow_swap1)
    show "(shift1 ^^ i) (yd_binary_description e) \<noteq> yd_binary_description first"
      if "0 < i" "i \<le> j" for i
      using Suc.prems(5)[of "Suc i"] that e(4) by (simp add: funpow_swap1)
  qed
  then obtain ds where ds: "cyclic_orbit_loop first e (yielded @ [cur])
            = Some (Gen ((yielded @ [cur]) @ ds) None)" "length ds = Suc j"
    "\<And>i. i \<le> j \<Longrightarrow> wf_diagram (ds ! i) \<and> yd_n (ds ! i) = yd_n e
             \<and> yd_binary_description (ds ! i) = (shift1 ^^ i) (yd_binary_description e)"
    by blast
  have "\<forall>i \<le> Suc j. wf_diagram ((cur # ds) ! i) \<and> yd_n ((cur # ds) ! i) = yd_n cur
           \<and> yd_binary_description ((cur # ds) ! i)
               = (shift1 ^^ i) (yd_binary_description cur)"
  proof (intro allI impI)
    fix i assume i: "i \<le> Suc j"
    show "wf_diagram ((cur # ds) ! i) \<and> yd_n ((cur # ds) ! i) = yd_n cur
           \<and> yd_binary_description ((cur # ds) ! i)
               = (shift1 ^^ i) (yd_binary_description cur)"
    proof (cases i)
      case 0
      then show ?thesis using Suc.prems(2) by simp
    next
      case (Suc i')
      then show ?thesis using ds(3)[of i'] i e(3,4) by (simp add: funpow_swap1)
    qed
  qed
  then show ?case using step ds(1,2) by (intro exI[of _ "cur # ds"]) simp
qed

text \<open>
  Claim C6, as the code has it. For every diagram \<open>d\<close> that the constructor returns and
  whose perimeter is at least 2, \<open>cyclic_orbit\<close> ends without an exception: it yields
  a non-empty sequence that starts at \<open>d\<close> and has at most perimeter many elements,
  each next element is the rotation by 1 of the one before and is not equal to \<open>d\<close>,
  and the rotation by 1 of the last element is equal to \<open>d\<close>. For the diagram of
  perimeter 0, \<open>cyclic_orbit\<close> yields \<open>d\<close> and then raises \<open>NotImplementedError\<close>, since
  \<open>cyclic_action\<close> refuses a perimeter of 0.
\<close>

theorem cyclic_orbit_finite:
  assumes "YoungDiagram_init h w rl = Inr d"
  shows "(2 \<le> yd_n d \<longrightarrow>
           (\<exists>ds. cyclic_orbit d = Some (Gen ds None) \<and> ds \<noteq> [] \<and> ds ! 0 = d
              \<and> int (length ds) \<le> yd_n d
              \<and> (\<forall>i. Suc i < length ds \<longrightarrow>
                     rshift (ds ! i) 1 = Inr (ds ! Suc i) \<and> \<not> yd_eq (ds ! Suc i) d)
              \<and> (\<exists>e. rshift (last ds) 1 = Inr e \<and> yd_eq e d)))
       \<and> (yd_n d = 0 \<longrightarrow> cyclic_orbit d = Some (Gen [d] (Some NotImplementedError)))"
proof (intro conjI impI)
  assume "yd_n d = 0"
  then have "rshift d 1 = Inl NotImplementedError"
    by (simp add: rshift_def cyclic_action_def)
  then show "cyclic_orbit d = Some (Gen [d] (Some NotImplementedError))"
    unfolding cyclic_orbit_def by (subst cyclic_orbit_loop.simps) simp
next
  assume n2: "2 \<le> yd_n d"
  let ?s = "yd_binary_description d"
  have wf: "wf_diagram d" by (rule init_wf(1)[OF assms])
  have len: "int (length ?s) = yd_n d" using wf_binary(3)[OF wf] n2 by simp
  obtain k where k: "0 < k" "k \<le> max 1 (length ?s)" "rotate_right k ?s = ?s"
    "\<And>j. 0 < j \<Longrightarrow> j < k \<Longrightarrow> rotate_right j ?s \<noteq> ?s"
    by (rule least_period[of ?s]) blast
  obtain j where j: "k = Suc j" using k(1) by (cases k) simp_all
  have "\<exists>ds. cyclic_orbit_loop d d [] = Some (Gen ([] @ ds) None)
            \<and> length ds = Suc j
            \<and> (\<forall>i \<le> j. wf_diagram (ds ! i) \<and> yd_n (ds ! i) = yd_n d
                 \<and> yd_binary_description (ds ! i) = (shift1 ^^ i) ?s)"
  proof (rule cyclic_orbit_loop_returns[OF wf wf n2])
    show "(shift1 ^^ Suc j) ?s = ?s" using k(3) j by (simp only: shift1_funpow_eq)
    show "(shift1 ^^ i) ?s \<noteq> ?s" if "0 < i" "i \<le> j" for i
      using k(4)[of i] that j by (simp add: shift1_funpow_eq)
  qed
  then obtain ds where ds: "cyclic_orbit d = Some (Gen ds None)" "length ds = Suc j"
    "\<And>i. i \<le> j \<Longrightarrow> wf_diagram (ds ! i) \<and> yd_n (ds ! i) = yd_n d
             \<and> yd_binary_description (ds ! i) = (shift1 ^^ i) ?s"
    unfolding cyclic_orbit_def by auto
  have ne: "ds \<noteq> []" using ds(2) by auto
  have first: "ds ! 0 = d" using ds(3)[of 0] wf by (intro wf_same_code) simp_all
  have bound: "int (length ds) \<le> yd_n d" using ds(2) j k(2) len n2 by simp
  have steps: "rshift (ds ! i) 1 = Inr (ds ! Suc i) \<and> \<not> yd_eq (ds ! Suc i) d"
    if "Suc i < length ds" for i
  proof -
    have i: "i \<le> j" "Suc i \<le> j" using that ds(2) by simp_all
    obtain e where e: "rshift (ds ! i) 1 = Inr e" "wf_diagram e"
      "yd_binary_description e = shift1 (yd_binary_description (ds ! i))"
      using rshift_one[of "ds ! i"] ds(3)[OF i(1)] n2 by metis
    have "yd_binary_description e = yd_binary_description (ds ! Suc i)"
      using e(3) ds(3)[OF i(1)] ds(3)[OF i(2)] by simp
    then have eq: "e = ds ! Suc i" using e(2) ds(3)[OF i(2)] by (intro wf_same_code) simp_all
    have "yd_binary_description (ds ! Suc i) \<noteq> ?s"
      using ds(3)[OF i(2)] k(4)[of "Suc i"] i(2) j by (simp only: shift1_funpow_eq) simp
    then have "\<not> yd_eq (ds ! Suc i) d" using ds(3)[OF i(2)] wf by (simp add: wf_yd_eq_iff)
    then show ?thesis using e(1) eq by simp
  qed
  have return: "\<exists>e. rshift (last ds) 1 = Inr e \<and> yd_eq e d"
  proof -
    have l: "last ds = ds ! j" using ds(2) ne by (simp add: last_conv_nth)
    obtain e where e: "rshift (ds ! j) 1 = Inr e" "wf_diagram e"
      "yd_binary_description e = shift1 (yd_binary_description (ds ! j))"
      using rshift_one[of "ds ! j"] ds(3)[of j] n2 by (metis order_refl)
    have "yd_binary_description e = (shift1 ^^ Suc j) ?s" using e(3) ds(3)[of j] by simp
    then have "yd_binary_description e = ?s" using k(3) j by (simp only: shift1_funpow_eq)
    then have "yd_eq e d" using e(2) wf by (simp add: wf_yd_eq_iff)
    then show ?thesis using e(1) l by auto
  qed
  show "\<exists>ds. cyclic_orbit d = Some (Gen ds None) \<and> ds \<noteq> [] \<and> ds ! 0 = d
              \<and> int (length ds) \<le> yd_n d
              \<and> (\<forall>i. Suc i < length ds \<longrightarrow>
                     rshift (ds ! i) 1 = Inr (ds ! Suc i) \<and> \<not> yd_eq (ds ! Suc i) d)
              \<and> (\<exists>e. rshift (last ds) 1 = Inr e \<and> yd_eq e d)"
    using ds(1) ne first bound steps return by blast
qed

theorem cyclic_orbit_finite_witness:
  "\<exists>ds. cyclic_orbit \<lparr>yd_height = 1, yd_width = 1, yd_n = 2, yd_usual_description = [1],
                       yd_binary_description = ''RU''\<rparr> = Some (Gen ds None)
      \<and> ds \<noteq> []
      \<and> ds ! 0 = \<lparr>yd_height = 1, yd_width = 1, yd_n = 2, yd_usual_description = [1],
                    yd_binary_description = ''RU''\<rparr>
      \<and> int (length ds) \<le> 2"
proof -
  have init: "YoungDiagram_init 1 1 [1] =
      Inr \<lparr>yd_height = 1, yd_width = 1, yd_n = 2, yd_usual_description = [1],
           yd_binary_description = ''RU''\<rparr>"
    by code_simp
  show ?thesis using cyclic_orbit_finite[OF init] by auto
qed

text \<open>
  The claim as stated fails for the diagram of perimeter 0: its orbit yields one
  element, more than the perimeter, and ends with \<open>NotImplementedError\<close> instead of
  ending when the rotation returns to the diagram.
\<close>

theorem cyclic_orbit_finite_counterexample:
  "YoungDiagram_init 0 0 [] =
     Inr \<lparr>yd_height = 0, yd_width = 0, yd_n = 0, yd_usual_description = [],
          yd_binary_description = []\<rparr>
   \<and> cyclic_orbit \<lparr>yd_height = 0, yd_width = 0, yd_n = 0, yd_usual_description = [],
                     yd_binary_description = []\<rparr>
       = Some (Gen [\<lparr>yd_height = 0, yd_width = 0, yd_n = 0, yd_usual_description = [],
                      yd_binary_description = []\<rparr>] (Some NotImplementedError))"
  by code_simp

section \<open>Steps to the next lower triangular diagram\<close>

lemma rotated_0: "wf_diagram d \<Longrightarrow> rotated d 0 = Inr d"
  by (simp add: rotated_def wf_decode)

lemma rotated_cyclic_action:
  assumes "wf_diagram d" "0 < k" "int k < yd_n d"
  shows "cyclic_action d (int k) = rotated d k"
proof -
  let ?s = "yd_binary_description d"
  have len: "int (length ?s) = yd_n d" using wf_binary(3)[OF assms(1)] assms(3) by simp
  have m: "int k mod yd_n d = int k" using assms(2,3) by simp
  have "slice_from ?s (yd_n d - int k) @ slice_to ?s (- int k)
      = drop (nat (yd_n d - int k)) ?s @ take (nat (yd_n d - int k)) ?s"
    using rotation_slices[of "int k" "yd_n d" ?s] assms(2,3) len by simp
  also have "nat (yd_n d - int k) = length ?s - k" using len by linarith
  finally have "slice_from ?s (yd_n d - int k) @ slice_to ?s (- int k) = rotate_right k ?s"
    using rotate_right_drop_take[of k ?s] assms(2,3) len by simp
  then show ?thesis using assms(3) m by (simp add: cyclic_action_def rotated_def Let_def)
qed

lemma rotated_shift:
  assumes "wf_diagram cur" "yd_binary_description cur = (shift1 ^^ j) (yd_binary_description d)"
  shows "rotated d j = Inr cur"
  using wf_decode[OF assms(1)] assms(2) by (simp add: rotated_def shift1_funpow_eq)

lemma lower_after_mod:
  "lower_after d (j mod length (yd_binary_description d)) = lower_after d j"
  by (simp add: lower_after_def rotated_def rotate_right_mod)

lemma is_lower_triangular_returns:
  assumes "wf_diagram c" "0 < yd_height c"
  obtains b where "is_lower_triangular c = Inr b"
proof -
  obtain c' where c': "complement c = Inr c'" "yd_height c' = yd_height c"
    using complement_wf[OF assms(1)] by blast
  then show ?thesis using that assms(2)
    by (simp add: is_lower_triangular_def is_upper_triangular_def Let_def)
qed

lemma is_lower_triangular_height_0:
  assumes "wf_diagram c" "yd_height c = 0"
  shows "is_lower_triangular c = Inl NotImplementedError"
proof -
  obtain c' where c': "complement c = Inr c'" "yd_height c' = yd_height c"
    using complement_wf[OF assms(1)] by blast
  then show ?thesis using assms(2)
    by (simp add: is_lower_triangular_def is_upper_triangular_def)
qed

lemma steps_loop_scan:
  assumes wf: "wf_diagram d" and h: "0 < yd_height d" and n2: "2 \<le> yd_n d"
  shows "wf_diagram cur \<Longrightarrow> yd_n cur = yd_n d \<Longrightarrow> yd_height cur = yd_height d
     \<Longrightarrow> yd_binary_description cur = (shift1 ^^ j) (yd_binary_description d)
     \<Longrightarrow> m = nat (yd_n d) - j
     \<Longrightarrow> (\<And>i. i < j \<Longrightarrow> \<not> lower_after d i)
     \<Longrightarrow> (\<exists>k. steps_loop (yd_n d) (int j) cur = Inr (Some (int k)) \<and> int k < yd_n d
              \<and> lower_after d k \<and> (\<forall>i<k. \<not> lower_after d i))
         \<or> (steps_loop (yd_n d) (int j) cur = Inr None
              \<and> (\<forall>i. int i < yd_n d \<longrightarrow> \<not> lower_after d i))"
proof (induction m arbitrary: j cur)
  case 0
  then have ge: "\<not> int j < yd_n d" by linarith
  then have "steps_loop (yd_n d) (int j) cur = Inr None"
    by (subst steps_loop.simps) simp
  moreover have "\<forall>i. int i < yd_n d \<longrightarrow> \<not> lower_after d i"
    using ge "0.prems"(6) by (metis linorder_not_less of_nat_less_iff order_less_le_trans)
  ultimately show ?case by blast
next
  case (Suc m)
  then have lt: "int j < yd_n d" by linarith
  have rot: "rotated d j = Inr cur" by (rule rotated_shift[OF Suc.prems(1,4)])
  obtain b where b: "is_lower_triangular cur = Inr b"
    using is_lower_triangular_returns[OF Suc.prems(1)] h Suc.prems(3) by auto
  have la: "lower_after d j = b" using rot b by (simp add: lower_after_def)
  show ?case
  proof (cases b)
    case True
    have "steps_loop (yd_n d) (int j) cur = Inr (Some (int j))"
      using lt b True by (subst steps_loop.simps) simp
    then show ?thesis using lt la True Suc.prems(6) by blast
  next
    case False
    obtain e where e: "rshift cur 1 = Inr e" "wf_diagram e"
      "yd_height e = yd_height cur" "yd_n e = yd_n cur"
      "yd_binary_description e = shift1 (yd_binary_description cur)"
      using rshift_one[of cur] Suc.prems(1,2) n2 by metis
    have step: "steps_loop (yd_n d) (int j) cur = steps_loop (yd_n d) (int (Suc j)) e"
      using lt b False e(1) by (subst steps_loop.simps) (simp add: add.commute)
    have "(\<exists>k. steps_loop (yd_n d) (int (Suc j)) e = Inr (Some (int k)) \<and> int k < yd_n d
              \<and> lower_after d k \<and> (\<forall>i<k. \<not> lower_after d i))
         \<or> (steps_loop (yd_n d) (int (Suc j)) e = Inr None
              \<and> (\<forall>i. int i < yd_n d \<longrightarrow> \<not> lower_after d i))"
    proof (rule Suc.IH[OF e(2)])
      show "yd_n e = yd_n d" using e(4) Suc.prems(2) by simp
      show "yd_height e = yd_height d" using e(3) Suc.prems(3) by simp
      show "yd_binary_description e = (shift1 ^^ Suc j) (yd_binary_description d)"
        using e(5) Suc.prems(4) by simp
      show "m = nat (yd_n d) - Suc j" using Suc.prems(5) by simp
      show "\<not> lower_after d i" if "i < Suc j" for i
        using that Suc.prems(6)[of i] la False by (cases "i = j") simp_all
    qed
    then show ?thesis unfolding step .
  qed
qed

text \<open>
  Claim C8, as the code has it. For every diagram \<open>d\<close> that the constructor returns and
  whose height is at least 1, \<open>steps_to_next_lower_triangular\<close> returns either the
  least \<open>k\<close> such that \<open>d\<close> rotated by \<open>k\<close> steps is lower triangular, and this \<open>k\<close> is
  below the perimeter, or \<open>None\<close>, and then no rotation of \<open>d\<close> at all is lower
  triangular. The loop is bounded by the perimeter, so the function always returns. For
  a diagram of height 0 and positive width it raises \<open>NotImplementedError\<close>, since
  \<open>is_upper_triangular\<close> refuses a height of 0; for the diagram of perimeter 0 it
  returns \<open>None\<close>.
\<close>

theorem steps_to_next_lower_triangular_scan:
  assumes "YoungDiagram_init h w rl = Inr d"
  shows "(0 < yd_height d \<longrightarrow>
            (\<exists>k. steps_to_next_lower_triangular d = Inr (Some (int k)) \<and> int k < yd_n d
                 \<and> lower_after d k \<and> (\<forall>j<k. \<not> lower_after d j))
          \<or> (steps_to_next_lower_triangular d = Inr None \<and> (\<forall>j. \<not> lower_after d j)))
       \<and> (yd_height d = 0 \<and> 0 < yd_width d
            \<longrightarrow> steps_to_next_lower_triangular d = Inl NotImplementedError)
       \<and> (yd_height d = 0 \<and> yd_width d = 0
            \<longrightarrow> steps_to_next_lower_triangular d = Inr None)"
proof (intro conjI impI)
  let ?s = "yd_binary_description d"
  have wf: "wf_diagram d" by (rule init_wf(1)[OF assms])
  then have n: "yd_n d = yd_height d + yd_width d" and hw: "0 \<le> yd_height d" "0 \<le> yd_width d"
    by (simp_all add: wf_diagram_def)
  {
    assume "yd_height d = 0 \<and> yd_width d = 0"
    then show "steps_to_next_lower_triangular d = Inr None"
      using n unfolding steps_to_next_lower_triangular_def
      by (subst steps_loop.simps) simp
  next
    assume a: "yd_height d = 0 \<and> 0 < yd_width d"
    then show "steps_to_next_lower_triangular d = Inl NotImplementedError"
      using n is_lower_triangular_height_0[OF wf] unfolding steps_to_next_lower_triangular_def
      by (subst steps_loop.simps) simp
  next
    assume h: "0 < yd_height d"
    then have npos: "0 < yd_n d" using n hw by simp
    have len: "int (length ?s) = yd_n d" using wf_binary(3)[OF wf] npos by simp
    have all: "\<forall>j. \<not> lower_after d j" if "\<forall>i. int i < yd_n d \<longrightarrow> \<not> lower_after d i"
    proof
      fix j
      have "int (j mod length ?s) < yd_n d" using len npos
        by (metis mod_less_divisor of_nat_0_less_iff of_nat_less_iff)
      then show "\<not> lower_after d j" using that lower_after_mod[of d j] by blast
    qed
    show "(\<exists>k. steps_to_next_lower_triangular d = Inr (Some (int k)) \<and> int k < yd_n d
                 \<and> lower_after d k \<and> (\<forall>j<k. \<not> lower_after d j))
          \<or> (steps_to_next_lower_triangular d = Inr None \<and> (\<forall>j. \<not> lower_after d j))"
    proof (cases "2 \<le> yd_n d")
      case True
      have "(\<exists>k. steps_loop (yd_n d) (int 0) d = Inr (Some (int k)) \<and> int k < yd_n d
              \<and> lower_after d k \<and> (\<forall>i<k. \<not> lower_after d i))
         \<or> (steps_loop (yd_n d) (int 0) d = Inr None
              \<and> (\<forall>i. int i < yd_n d \<longrightarrow> \<not> lower_after d i))"
        by (rule steps_loop_scan[OF wf h True wf]) simp_all
      then show ?thesis using all by (auto simp: steps_to_next_lower_triangular_def)
    next
      case False
      then have n1: "yd_n d = 1" using npos by simp
      obtain b where b: "is_lower_triangular d = Inr b"
        using is_lower_triangular_returns[OF wf h] by auto
      have la: "lower_after d 0 = b" using rotated_0[OF wf] b by (simp add: lower_after_def)
      show ?thesis
      proof (cases b)
        case True
        have "steps_to_next_lower_triangular d = Inr (Some (int 0))"
          unfolding steps_to_next_lower_triangular_def
          using n1 b True by (subst steps_loop.simps) simp
        then show ?thesis using la True n1 by (intro disjI1 exI[of _ 0]) simp
      next
        case False
        obtain e where e: "rshift d 1 = Inr e"
          using cyclic_action_returns[OF wf npos, of 1] by (auto simp: rshift_def)
        have "steps_loop 1 1 e = Inr None" by (subst steps_loop.simps) simp
        then have r: "steps_to_next_lower_triangular d = Inr None"
          unfolding steps_to_next_lower_triangular_def
          using n1 b False e by (subst steps_loop.simps) simp
        have "\<forall>i. int i < yd_n d \<longrightarrow> \<not> lower_after d i" using n1 la False by simp
        then show ?thesis using r all by blast
      qed
    qed
  }
qed

theorem steps_to_next_lower_triangular_scan_witness:
  "(\<exists>k. steps_to_next_lower_triangular
           \<lparr>yd_height = 1, yd_width = 1, yd_n = 2, yd_usual_description = [1],
              yd_binary_description = ''RU''\<rparr> = Inr (Some (int k)) \<and> int k < 2
        \<and> lower_after \<lparr>yd_height = 1, yd_width = 1, yd_n = 2, yd_usual_description = [1],
                        yd_binary_description = ''RU''\<rparr> k)
   \<or> steps_to_next_lower_triangular
           \<lparr>yd_height = 1, yd_width = 1, yd_n = 2, yd_usual_description = [1],
              yd_binary_description = ''RU''\<rparr> = Inr None"
proof -
  have init: "YoungDiagram_init 1 1 [1] =
      Inr \<lparr>yd_height = 1, yd_width = 1, yd_n = 2, yd_usual_description = [1],
           yd_binary_description = ''RU''\<rparr>"
    by code_simp
  show ?thesis using steps_to_next_lower_triangular_scan[OF init] by auto
qed

text \<open>
  The claim as stated fails for the diagram of height 0 and width 1: the function
  returns neither a number of steps nor \<open>None\<close>, it raises \<open>NotImplementedError\<close>.
\<close>

theorem steps_to_next_lower_triangular_scan_counterexample:
  "YoungDiagram_init 0 1 [] =
     Inr \<lparr>yd_height = 0, yd_width = 1, yd_n = 1, yd_usual_description = [],
          yd_binary_description = ''R''\<rparr>
   \<and> steps_to_next_lower_triangular
         \<lparr>yd_height = 0, yd_width = 1, yd_n = 1, yd_usual_description = [],
            yd_binary_description = ''R''\<rparr> = Inl NotImplementedError"
  by code_simp

section \<open>Rotation by the perimeter\<close>

lemma decode_empty:
  "Construct_From_Binary_Description [] =
     Inr \<lparr>yd_height = 0, yd_width = 0, yd_n = 0, yd_usual_description = [],
          yd_binary_description = []\<rparr>"
  by (simp add: Construct_From_Binary_Description_def YoungDiagram_init_def)

text \<open>
  With a residue of 0 the source computes \<open>old[n:] + old[:-0]\<close>, and \<open>old[:-0]\<close> is
  \<open>old[:0]\<close>: the new code is empty, whatever the diagram.
\<close>

lemma cyclic_action_zero_residue:
  assumes "wf_diagram d" "0 < yd_n d" "steps mod yd_n d = 0"
  shows "cyclic_action d steps =
     Inr \<lparr>yd_height = 0, yd_width = 0, yd_n = 0, yd_usual_description = [],
          yd_binary_description = []\<rparr>"
proof -
  have len: "int (length (yd_binary_description d)) = yd_n d"
    using wf_binary(3)[OF assms(1)] assms(2) by simp
  have a: "slice_from (yd_binary_description d) (yd_n d) = []"
    using assms(2) len by (simp add: slice_from_def)
  have b: "slice_to (yd_binary_description d) (- 0) = []" by (simp add: slice_to_def)
  show ?thesis using assms(2,3) a b by (simp add: cyclic_action_def decode_empty)
qed

text \<open>
  Claim C2 fails on the code. The diagram of height 1, width 1 and row lengths \<open>(1)\<close>
  has perimeter 2; \<open>cyclic_action\<close> with \<open>steps = 2\<close> returns the diagram of height 0
  and width 0, which is not equal to the diagram it started from.
\<close>

theorem cyclic_action_perimeter_empty:
  "YoungDiagram_init 1 1 [1] =
     Inr \<lparr>yd_height = 1, yd_width = 1, yd_n = 2, yd_usual_description = [1],
          yd_binary_description = ''RU''\<rparr>
   \<and> cyclic_action \<lparr>yd_height = 1, yd_width = 1, yd_n = 2, yd_usual_description = [1],
                      yd_binary_description = ''RU''\<rparr> 2
       = Inr \<lparr>yd_height = 0, yd_width = 0, yd_n = 0, yd_usual_description = [],
              yd_binary_description = []\<rparr>
   \<and> \<not> yd_eq \<lparr>yd_height = 0, yd_width = 0, yd_n = 0, yd_usual_description = [],
                 yd_binary_description = []\<rparr>
              \<lparr>yd_height = 1, yd_width = 1, yd_n = 2, yd_usual_description = [1],
                 yd_binary_description = ''RU''\<rparr>"
  by code_simp

section \<open>The enumerations of a family\<close>

text \<open>
  Claim C3 fails on the code. The family of height 1 and width 2 yields a diagram of
  height 2 and width 1, since the constructor is called with width and height
  exchanged; for the same reason the family of height 2 and width 1 yields nothing and
  ends with a failed assertion. The family of height 1 and width 1 yields only the
  diagram with row lengths \<open>(0)\<close>, whereas the diagram with row lengths \<open>(1)\<close> is in
  the box and \<open>is_upper_triangular\<close> holds for it: the ceiling of the enumeration uses
  \<open>height - row_counter - 1\<close> where the predicate uses \<open>height - row_counter\<close>.
\<close>

theorem get_upper_triangulars_misses:
  "get_upper_triangulars \<lparr>ys_height = 1, ys_width = 2, ys_n = 3\<rparr>
     = Inr (Gen [\<lparr>yd_height = 2, yd_width = 1, yd_n = 3, yd_usual_description = [0, 0],
                  yd_binary_description = ''UUR''\<rparr>] None)
   \<and> get_upper_triangulars \<lparr>ys_height = 2, ys_width = 1, ys_n = 3\<rparr>
     = Inr (Gen [] (Some AssertionError))
   \<and> get_upper_triangulars \<lparr>ys_height = 1, ys_width = 1, ys_n = 2\<rparr>
     = Inr (Gen [\<lparr>yd_height = 1, yd_width = 1, yd_n = 2, yd_usual_description = [0],
                  yd_binary_description = ''UR''\<rparr>] None)
   \<and> YoungDiagram_init 1 1 [1]
     = Inr \<lparr>yd_height = 1, yd_width = 1, yd_n = 2, yd_usual_description = [1],
            yd_binary_description = ''RU''\<rparr>
   \<and> is_upper_triangular \<lparr>yd_height = 1, yd_width = 1, yd_n = 2, yd_usual_description = [1],
                            yd_binary_description = ''RU''\<rparr> = Inr True"
  by code_simp

lemma families_init:
  "YoungDiagrams_init 1 2 = Inr \<lparr>ys_height = 1, ys_width = 2, ys_n = 3\<rparr>"
  "YoungDiagrams_init 2 1 = Inr \<lparr>ys_height = 2, ys_width = 1, ys_n = 3\<rparr>"
  "YoungDiagrams_init 1 1 = Inr \<lparr>ys_height = 1, ys_width = 1, ys_n = 2\<rparr>"
  "YoungDiagrams_init 3 3 = Inr \<lparr>ys_height = 3, ys_width = 3, ys_n = 6\<rparr>"
  "YoungDiagrams_init 4 8 = Inr \<lparr>ys_height = 4, ys_width = 8, ys_n = 12\<rparr>"
  by (simp_all add: YoungDiagrams_init_def)

text \<open>
  The family of height 3 and width 3: four diagrams are yielded, given here by height,
  width and row lengths, and the enumeration ends without an exception.
\<close>

lemma get_minimal_upper_triangulars_3_3:
  "(case get_minimal_upper_triangulars \<lparr>ys_height = 3, ys_width = 3, ys_n = 6\<rparr> of
      Some (Gen ds raised) \<Rightarrow> (map repr ds, raised) | None \<Rightarrow> ([], None))
   = ([(3, 3, [0, 0, 0]), (3, 3, [1, 0, 0]), (3, 3, [1, 1, 0]), (3, 3, [2, 1, 0])], None)"
  by code_simp

text \<open>
  Claim C4 fails on the code. The family of height 4 and width 8 constructs diagrams
  of height 8 and width 4 (width and height are exchanged in the call of the
  constructor), among them diagrams that \<open>is_upper_triangular\<close> rejects; such a diagram
  is not recorded in the orbit it starts, so the orbit is started again and its minimal
  member is yielded again. The diagrams with row lengths \<open>(0,\<dots>)\<close>, \<open>(1,0,\<dots>)\<close> and
  \<open>(2,0,\<dots>)\<close> are each yielded twice, before the enumeration ends with a failed
  assertion. The diagrams are given by height, width and row lengths.
\<close>

theorem get_minimal_upper_triangulars_repeats:
  "(case get_minimal_upper_triangulars \<lparr>ys_height = 4, ys_width = 8, ys_n = 12\<rparr> of
      Some (Gen ds raised) \<Rightarrow> (map repr ds, raised) | None \<Rightarrow> ([], None))
   = ([(8, 4, [0, 0, 0, 0, 0, 0, 0, 0]), (8, 4, [1, 0, 0, 0, 0, 0, 0, 0]),
       (8, 4, [1, 1, 0, 0, 0, 0, 0, 0]), (8, 4, [1, 1, 1, 0, 0, 0, 0, 0]),
       (8, 4, [2, 0, 0, 0, 0, 0, 0, 0]), (8, 4, [2, 1, 0, 0, 0, 0, 0, 0]),
       (8, 4, [2, 1, 1, 0, 0, 0, 0, 0]), (8, 4, [2, 2, 0, 0, 0, 0, 0, 0]),
       (8, 4, [2, 2, 1, 0, 0, 0, 0, 0]), (8, 4, [2, 2, 2, 0, 0, 0, 0, 0]),
       (8, 4, [1, 1, 1, 1, 1, 1, 1, 0]), (8, 4, [2, 1, 1, 1, 1, 1, 1, 0]),
       (8, 4, [2, 2, 1, 1, 1, 1, 1, 0]), (8, 4, [3, 1, 1, 1, 1, 1, 1, 0]),
       (8, 4, [3, 2, 1, 0, 0, 0, 0, 0]), (8, 4, [2, 2, 2, 2, 2, 1, 0, 0]),
       (8, 4, [1, 1, 1, 1, 1, 1, 0, 0]), (8, 4, [2, 1, 1, 1, 1, 1, 0, 0]),
       (8, 4, [2, 2, 2, 2, 2, 1, 1, 0]), (8, 4, [0, 0, 0, 0, 0, 0, 0, 0]),
       (8, 4, [1, 0, 0, 0, 0, 0, 0, 0]), (8, 4, [2, 0, 0, 0, 0, 0, 0, 0])],
      Some AssertionError)"
  by code_simp

end
